theory Spec2Isabelle
  imports Main
begin

section \<open>Data model of the parser generator\<close>

text \<open>
  The definitions follow \<^verbatim>\<open>lemongo.go\<close>. Go's \<^verbatim>\<open>int\<close> is modelled as \<^typ>\<open>int\<close>: the
  values involved are table sizes and symbol, rule and state numbers, far below the
  64-bit range. A pointer to a symbol or a rule is modelled by the value it points to,
  a nil pointer by \<^term>\<open>None\<close>. Every panic and every \<^verbatim>\<open>os.Exit\<close> of the modelled
  functions is a value of the type \<open>error\<close>.
\<close>

datatype error =
    WantLookahead      \<comment> \<open>the explicit panic of \<^verbatim>\<open>acttab_insert\<close>\<close>
  | IndexOutOfRange    \<comment> \<open>Go's run-time panic on a slice index out of range\<close>
  | NilDereference     \<comment> \<open>Go's run-time panic on a nil pointer\<close>
  | NegativeMakeLen    \<comment> \<open>Go's run-time panic on \<^verbatim>\<open>make\<close> with a negative length\<close>
  | AssertFailed       \<comment> \<open>\<^verbatim>\<open>assert\<close> prints and calls \<^verbatim>\<open>os.Exit(1)\<close>\<close>

datatype symbol_type = TERMINAL | NONTERMINAL | MULTITERMINAL

datatype e_assoc = LEFT | RIGHT | NONE | UNK

text \<open>The fields of \<^verbatim>\<open>symbol\<close> that the modelled functions read. \<^verbatim>\<open>subsym\<close> holds the
  names of the constituents (symbols are interned by name).\<close>

record symbol =
  name :: string
  index :: int
  typ_sym :: symbol_type
  prec :: int
  assoc :: e_assoc
  subsym :: "string list"

record rule =
  iRule :: int
  precsym :: "symbol option"

datatype e_action =
    SHIFT | ACCEPT | REDUCE | ERROR | SSCONFLICT | SRCONFLICT | RRCONFLICT
  | SH_RESOLVED | RD_RESOLVED | NOT_USED | SHIFTREDUCE

text \<open>\<^verbatim>\<open>stateOrRuleUnion\<close>: the state pointer is only ever dereferenced for its
  \<^verbatim>\<open>statenum\<close>, so \<open>stp\<close> holds the state number read through the pointer.\<close>

record stateOrRuleUnion =
  stp :: "int option"
  rp :: "rule option"

record action =
  sp :: symbol
  typ_act :: e_action
  x_union :: stateOrRuleUnion

record lemon =
  nstate :: int
  nxstate :: int
  nrule :: int
  nsymbol :: int
  nterminal :: int
  minShiftReduce :: int
  errAction :: int
  accAction :: int
  noAction :: int
  minReduce :: int
  maxAction :: int
  errsym :: "symbol option"
  errorcnt :: int
  nconflict :: int
  printPreprocessed :: bool

section \<open>Action encoding\<close>

text \<open>The six assignments at the head of \<^verbatim>\<open>ReportTable\<close>, in source order.\<close>

definition ReportTable_boundaries :: "lemon \<Rightarrow> lemon" where
  "ReportTable_boundaries lemp0 =
    (let lemp1 = lemp0\<lparr>minShiftReduce := nstate lemp0\<rparr>;
         lemp2 = lemp1\<lparr>errAction := minShiftReduce lemp1 + nrule lemp1\<rparr>;
         lemp3 = lemp2\<lparr>accAction := errAction lemp2 + 1\<rparr>;
         lemp4 = lemp3\<lparr>noAction := accAction lemp3 + 1\<rparr>;
         lemp5 = lemp4\<lparr>minReduce := noAction lemp4 + 1\<rparr>
     in lemp5\<lparr>maxAction := minReduce lemp5 + nrule lemp5\<rparr>)"

definition compute_action :: "lemon \<Rightarrow> action \<Rightarrow> error + int" where
  "compute_action lemp a =
    (case typ_act a of
       SHIFT \<Rightarrow> (case stp (x_union a) of None \<Rightarrow> Inl NilDereference | Some n \<Rightarrow> Inr n)
     | SHIFTREDUCE \<Rightarrow>
         (case rp (x_union a) of
            None \<Rightarrow> Inl NilDereference
          | Some r \<Rightarrow>
              if index (sp a) \<ge> nterminal lemp
                 \<and> (case errsym lemp of None \<Rightarrow> True | Some e \<Rightarrow> index (sp a) \<noteq> index e)
              then Inr (minReduce lemp + iRule r)
              else Inr (minShiftReduce lemp + iRule r))
     | REDUCE \<Rightarrow>
         (case rp (x_union a) of
            None \<Rightarrow> Inl NilDereference
          | Some r \<Rightarrow> Inr (minReduce lemp + iRule r))
     | ERROR \<Rightarrow> Inr (errAction lemp)
     | ACCEPT \<Rightarrow> Inr (accAction lemp)
     | _ \<Rightarrow> Inr (- 1))"

text \<open>A grammar record with three states of which the last was stripped as an
  auto-reduce state, and two rules.\<close>

definition lemon_stripped :: lemon where
  "lemon_stripped =
    \<lparr>nstate = 3, nxstate = 2, nrule = 2, nsymbol = 4, nterminal = 2,
     minShiftReduce = 0, errAction = 0, accAction = 0, noAction = 0, minReduce = 0,
     maxAction = 0, errsym = None, errorcnt = 0, nconflict = 0,
     printPreprocessed = False\<rparr>"

definition sym_ex :: "string \<Rightarrow> int \<Rightarrow> symbol_type \<Rightarrow> symbol" where
  "sym_ex nm i t = \<lparr>name = nm, index = i, typ_sym = t, prec = - 1, assoc = UNK, subsym = []\<rparr>"

section \<open>Conflict resolution\<close>

text \<open>
  \<^verbatim>\<open>resolve_conflict(apx, apy)\<close> changes the type of one of the two actions in place and
  returns the number of conflicts it could not resolve. The model returns both actions
  and the count. The caller passes two distinct actions (\<^verbatim>\<open>nap\<close> follows \<^verbatim>\<open>ap\<close> in the
  list); the comparison of the two symbol pointers is the comparison of the symbols.
\<close>

definition resolve_conflict :: "action \<Rightarrow> action \<Rightarrow> error + (action \<times> action \<times> int)" where
  "resolve_conflict apx0 apy0 =
    (if sp apx0 \<noteq> sp apy0 then Inl AssertFailed
     else
       let (apy1, errcnt1) =
             (if typ_act apx0 = SHIFT \<and> typ_act apy0 = SHIFT
              then (apy0\<lparr>typ_act := SSCONFLICT\<rparr>, 1)
              else (apy0, 0::int))
       in
       if typ_act apx0 = SHIFT \<and> typ_act apy1 = REDUCE then
         (case rp (x_union apy1) of
            None \<Rightarrow> Inl NilDereference
          | Some ry \<Rightarrow>
              let spx = sp apx0; spy = precsym ry in
              (case spy of
                 None \<Rightarrow> Inr (apx0, apy1\<lparr>typ_act := SRCONFLICT\<rparr>, errcnt1 + 1)
               | Some sy \<Rightarrow>
                   if prec spx < 0 \<or> prec sy < 0 then
                     Inr (apx0, apy1\<lparr>typ_act := SRCONFLICT\<rparr>, errcnt1 + 1)
                   else if prec spx > prec sy then
                     Inr (apx0, apy1\<lparr>typ_act := RD_RESOLVED\<rparr>, errcnt1)
                   else if prec spx < prec sy then
                     Inr (apx0\<lparr>typ_act := SH_RESOLVED\<rparr>, apy1, errcnt1)
                   else if prec spx = prec sy \<and> assoc spx = RIGHT then
                     Inr (apx0, apy1\<lparr>typ_act := RD_RESOLVED\<rparr>, errcnt1)
                   else if prec spx = prec sy \<and> assoc spx = LEFT then
                     Inr (apx0\<lparr>typ_act := SH_RESOLVED\<rparr>, apy1, errcnt1)
                   else if \<not> (prec spx = prec sy \<and> assoc spx = NONE) then Inl AssertFailed
                   else Inr (apx0\<lparr>typ_act := ERROR\<rparr>, apy1, errcnt1)))
       else if typ_act apx0 = REDUCE \<and> typ_act apy1 = REDUCE then
         (case rp (x_union apx0) of
            None \<Rightarrow> Inl NilDereference
          | Some rx \<Rightarrow>
              (case rp (x_union apy1) of
                 None \<Rightarrow> Inl NilDereference
               | Some ry \<Rightarrow>
                   (case (precsym rx, precsym ry) of
                      (Some sx, Some sy) \<Rightarrow>
                        if prec sx < 0 \<or> prec sy < 0 \<or> prec sx = prec sy then
                          Inr (apx0, apy1\<lparr>typ_act := RRCONFLICT\<rparr>, errcnt1 + 1)
                        else if prec sx > prec sy then
                          Inr (apx0, apy1\<lparr>typ_act := RD_RESOLVED\<rparr>, errcnt1)
                        else if prec sx < prec sy then
                          Inr (apx0\<lparr>typ_act := RD_RESOLVED\<rparr>, apy1, errcnt1)
                        else Inr (apx0, apy1, errcnt1)
                    | _ \<Rightarrow> Inr (apx0, apy1\<lparr>typ_act := RRCONFLICT\<rparr>, errcnt1 + 1))))
       else if typ_act apx0 \<in> {SH_RESOLVED, RD_RESOLVED, SSCONFLICT, SRCONFLICT, RRCONFLICT}
               \<or> typ_act apy1 \<in> {SH_RESOLVED, RD_RESOLVED, SSCONFLICT, SRCONFLICT, RRCONFLICT}
            then Inr (apx0, apy1, errcnt1)
       else Inl AssertFailed)"

text \<open>Example symbols and actions: a token \<open>PLUS\<close> declared \<^verbatim>\<open>%left\<close> at precedence 2,
  a token \<open>TIMES\<close> declared \<^verbatim>\<open>%right\<close> at precedence 3, a token \<open>EQ\<close> declared
  \<^verbatim>\<open>%nonassoc\<close> at precedence 1 and a token \<open>FOO\<close> that is in no precedence
  declaration.\<close>

definition tok :: "string \<Rightarrow> int \<Rightarrow> int \<Rightarrow> e_assoc \<Rightarrow> symbol" where
  "tok nm i p a = \<lparr>name = nm, index = i, typ_sym = TERMINAL, prec = p, assoc = a, subsym = []\<rparr>"

definition PLUS_sym :: symbol where "PLUS_sym = tok ''PLUS'' 1 2 LEFT"
definition TIMES_sym :: symbol where "TIMES_sym = tok ''TIMES'' 2 3 RIGHT"
definition EQ_sym :: symbol where "EQ_sym = tok ''EQ'' 3 1 NONE"
definition FOO_sym :: symbol where "FOO_sym = tok ''FOO'' 4 (- 1) UNK"

definition shift_on :: "symbol \<Rightarrow> action" where
  "shift_on s = \<lparr>sp = s, typ_act = SHIFT, x_union = \<lparr>stp = Some 5, rp = None\<rparr>\<rparr>"

definition reduce_on :: "symbol \<Rightarrow> int \<Rightarrow> symbol option \<Rightarrow> action" where
  "reduce_on s i ps =
     \<lparr>sp = s, typ_act = REDUCE, x_union = \<lparr>stp = None, rp = Some \<lparr>iRule = i, precsym = ps\<rparr>\<rparr>\<rparr>"

section \<open>The action table under construction\<close>

record lookahead_action =
  lookahead :: int
  action :: int

record acttab =
  nAction :: int
  nActionAlloc :: int
  aAction :: "lookahead_action list"
  aLookahead :: "lookahead_action list"
  mnLookahead :: int
  mnAction :: int
  mxLookahead :: int
  nLookahead :: int
  nLookaheadAlloc :: int
  nterminal :: int
  nsymbol :: int

text \<open>A slice read \<^verbatim>\<open>s[i]\<close> and a slice write \<^verbatim>\<open>s[i] = v\<close>: Go panics when the index is
  negative or not below the length.\<close>

definition slice_get :: "'a list \<Rightarrow> int \<Rightarrow> error + 'a" where
  "slice_get s i = (if 0 \<le> i \<and> i < int (length s) then Inr (s ! nat i) else Inl IndexOutOfRange)"

definition slice_set :: "'a list \<Rightarrow> int \<Rightarrow> 'a \<Rightarrow> error + 'a list" where
  "slice_set s i v = (if 0 \<le> i \<and> i < int (length s) then Inr (s[nat i := v]) else Inl IndexOutOfRange)"

text \<open>The zero value of \<^verbatim>\<open>lookahead_action\<close>, which \<^verbatim>\<open>make\<close> fills in, and the pair that
  marks an empty slot of \<^verbatim>\<open>aAction\<close>.\<close>

definition zero_entry :: lookahead_action where
  "zero_entry = \<lparr>lookahead = 0, action = 0\<rparr>"

definition empty_entry :: lookahead_action where
  "empty_entry = \<lparr>lookahead = - 1, action = - 1\<rparr>"

definition acttab_alloc :: "int \<Rightarrow> int \<Rightarrow> acttab" where
  "acttab_alloc nsym nterm =
    \<lparr>nAction = 0, nActionAlloc = 0, aAction = [], aLookahead = [], mnLookahead = 0,
     mnAction = 0, mxLookahead = 0, nLookahead = 0, nLookaheadAlloc = 0,
     nterminal = nterm, nsymbol = nsym\<rparr>"

definition acttab_action :: "acttab \<Rightarrow> int \<Rightarrow> int \<Rightarrow> error + acttab" where
  "acttab_action p0 la act =
    (let p1 = (if nLookahead p0 \<ge> nLookaheadAlloc p0
               then p0\<lparr>nLookaheadAlloc := nLookaheadAlloc p0 + 25,
                       aLookahead := aLookahead p0 @ replicate 25 zero_entry\<rparr>
               else p0);
         p2 = (if nLookahead p1 = 0
               then p1\<lparr>mxLookahead := la, mnLookahead := la, mnAction := act\<rparr>
               else
                 let p1a = (if mxLookahead p1 < la then p1\<lparr>mxLookahead := la\<rparr> else p1)
                 in if mnLookahead p1a > la
                    then p1a\<lparr>mnLookahead := la, mnAction := act\<rparr>
                    else p1a)
     in case slice_set (aLookahead p2) (nLookahead p2) \<lparr>lookahead = la, action = act\<rparr> of
          Inl e \<Rightarrow> Inl e
        | Inr s \<Rightarrow> Inr (p2\<lparr>aLookahead := s, nLookahead := nLookahead p2 + 1\<rparr>))"

subsection \<open>The loops of \<^verbatim>\<open>acttab_insert\<close>\<close>

text \<open>\<^verbatim>\<open>for i = oldAlloc; i < p.nActionAlloc; i++ { p.aAction[i] = (-1, -1) }\<close>\<close>

function fill_empty :: "lookahead_action list \<Rightarrow> int \<Rightarrow> int \<Rightarrow> error + lookahead_action list" where
  "fill_empty s i hi =
    (if i < hi then
       (case slice_set s i empty_entry of
          Inl e \<Rightarrow> Inl e
        | Inr s' \<Rightarrow> fill_empty s' (i + 1) hi)
     else Inr s)"
  by pat_completeness auto
termination
  by (relation "measure (\<lambda>(s, i, hi). nat (hi - i))") auto

text \<open>The first step of \<^verbatim>\<open>acttab_insert\<close>: make room for the worst case.\<close>

definition grow :: "acttab \<Rightarrow> error + acttab" where
  "grow p =
    (let n = nsymbol p + 1 in
     if nAction p + n \<ge> nActionAlloc p then
       let oldAlloc = nActionAlloc p;
           newAlloc = nAction p + n + nActionAlloc p + 20
       in if newAlloc - int (length (aAction p)) < 0 then Inl NegativeMakeLen
          else
            (case fill_empty
                    (aAction p @ replicate (nat (newAlloc - int (length (aAction p)))) zero_entry)
                    oldAlloc newAlloc of
               Inl e \<Rightarrow> Inl e
             | Inr s \<Rightarrow> Inr (p\<lparr>nActionAlloc := newAlloc, aAction := s\<rparr>))
     else Inr p)"

text \<open>The inner loop of the duplicate scan: the first \<open>j\<close> at which the pending entry
  \<open>j\<close> does not agree with the table when the minimum lookahead is put at slot \<open>i\<close>, or
  \<open>nLookahead\<close> when all agree.\<close>

function match_row :: "acttab \<Rightarrow> int \<Rightarrow> int \<Rightarrow> error + int" where
  "match_row p i j =
    (if j < nLookahead p then
       (case slice_get (aLookahead p) j of
          Inl e \<Rightarrow> Inl e
        | Inr a \<Rightarrow>
            let k = lookahead a - mnLookahead p + i in
            if k < 0 \<or> k \<ge> nAction p then Inr j
            else
              (case slice_get (aAction p) k of
                 Inl e \<Rightarrow> Inl e
               | Inr c \<Rightarrow>
                   if lookahead a \<noteq> lookahead c then Inr j
                   else if action a \<noteq> action c then Inr j
                   else match_row p i (j + 1)))
     else Inr j)"
  by pat_completeness auto
termination
  by (relation "measure (\<lambda>(p, i, j). nat (nLookahead p - j))") auto

text \<open>The count \<open>n\<close> of used slots \<open>j\<close> of the table whose lookahead would be read as
  belonging to a row whose minimum lookahead is at slot \<open>i\<close>.\<close>

function count_alias :: "acttab \<Rightarrow> int \<Rightarrow> int \<Rightarrow> int \<Rightarrow> error + int" where
  "count_alias p i j n =
    (if j < nAction p then
       (case slice_get (aAction p) j of
          Inl e \<Rightarrow> Inl e
        | Inr c \<Rightarrow>
            if lookahead c < 0 then count_alias p i (j + 1) n
            else if lookahead c = j + mnLookahead p - i then count_alias p i (j + 1) (n + 1)
            else count_alias p i (j + 1) n)
     else Inr n)"
  by pat_completeness auto
termination
  by (relation "measure (\<lambda>(p, i, j, n). nat (nAction p - j))") auto

text \<open>The duplicate scan, from \<open>i\<close> downwards to \<open>end\<close>. The result is the value of \<open>i\<close>
  when the loop is left: below \<open>end\<close> when no duplicate was found.\<close>

function dedup_scan :: "acttab \<Rightarrow> int \<Rightarrow> int \<Rightarrow> error + int" where
  "dedup_scan p end i =
    (if i \<ge> end then
       (case slice_get (aAction p) i of
          Inl e \<Rightarrow> Inl e
        | Inr c \<Rightarrow>
            if lookahead c = mnLookahead p then
              if action c \<noteq> mnAction p then dedup_scan p end (i - 1)
              else
                (case match_row p i 0 of
                   Inl e \<Rightarrow> Inl e
                 | Inr j \<Rightarrow>
                     if j < nLookahead p then dedup_scan p end (i - 1)
                     else
                       (case count_alias p i 0 0 of
                          Inl e \<Rightarrow> Inl e
                        | Inr n \<Rightarrow>
                            if n = nLookahead p then Inr i
                            else dedup_scan p end (i - 1)))
            else dedup_scan p end (i - 1))
     else Inr i)"
  by pat_completeness auto
termination
  by (relation "measure (\<lambda>(p, e, i). nat (i - e + 1))") auto

text \<open>The first inner loop of the hole scan: the first \<open>j\<close> whose slot is before the
  table or taken.\<close>

function hole_fits :: "acttab \<Rightarrow> int \<Rightarrow> int \<Rightarrow> error + int" where
  "hole_fits p i j =
    (if j < nLookahead p then
       (case slice_get (aLookahead p) j of
          Inl e \<Rightarrow> Inl e
        | Inr a \<Rightarrow>
            let k = lookahead a - mnLookahead p + i in
            if k < 0 then Inr j
            else
              (case slice_get (aAction p) k of
                 Inl e \<Rightarrow> Inl e
               | Inr c \<Rightarrow> if lookahead c \<ge> 0 then Inr j else hole_fits p i (j + 1)))
     else Inr j)"
  by pat_completeness auto
termination
  by (relation "measure (\<lambda>(p, i, j). nat (nLookahead p - j))") auto

text \<open>The second inner loop of the hole scan: the first slot \<open>j\<close> whose lookahead would
  be read as belonging to the row at \<open>i\<close>.\<close>

function alias_free :: "acttab \<Rightarrow> int \<Rightarrow> int \<Rightarrow> error + int" where
  "alias_free p i j =
    (if j < nAction p then
       (case slice_get (aAction p) j of
          Inl e \<Rightarrow> Inl e
        | Inr c \<Rightarrow>
            if lookahead c = j + mnLookahead p - i then Inr j
            else alias_free p i (j + 1))
     else Inr j)"
  by pat_completeness auto
termination
  by (relation "measure (\<lambda>(p, i, j). nat (nAction p - j))") auto

function hole_scan :: "acttab \<Rightarrow> int \<Rightarrow> error + int" where
  "hole_scan p i =
    (if i < nActionAlloc p - mxLookahead p then
       (case slice_get (aAction p) i of
          Inl e \<Rightarrow> Inl e
        | Inr c \<Rightarrow>
            if lookahead c < 0 then
              (case hole_fits p i 0 of
                 Inl e \<Rightarrow> Inl e
               | Inr j \<Rightarrow>
                   if j < nLookahead p then hole_scan p (i + 1)
                   else
                     (case alias_free p i 0 of
                        Inl e \<Rightarrow> Inl e
                      | Inr j' \<Rightarrow> if j' = nAction p then Inr i else hole_scan p (i + 1)))
            else hole_scan p (i + 1))
     else Inr i)"
  by pat_completeness auto
termination
  by (relation "measure (\<lambda>(p, i). nat (nActionAlloc p - mxLookahead p - i))") auto

text \<open>The installation loop.\<close>

function install :: "acttab \<Rightarrow> int \<Rightarrow> int \<Rightarrow> error + acttab" where
  "install p i j =
    (if j < nLookahead p then
       (case slice_get (aLookahead p) j of
          Inl e \<Rightarrow> Inl e
        | Inr a \<Rightarrow>
            let k = lookahead a - mnLookahead p + i in
            (case slice_set (aAction p) k a of
               Inl e \<Rightarrow> Inl e
             | Inr s \<Rightarrow>
                 install (p\<lparr>aAction := s, nAction := (if k \<ge> nAction p then k + 1 else nAction p)\<rparr>)
                   i (j + 1)))
     else Inr p)"
  by pat_completeness auto
termination
  by (relation "measure (\<lambda>(p, i, j). nat (nLookahead p - j))") auto

text \<open>The two scans of \<^verbatim>\<open>acttab_insert\<close>: they leave \<open>i\<close> at the slot of \<^verbatim>\<open>aAction\<close> where
  the minimum lookahead of the pending row goes.\<close>

definition find_slot :: "acttab \<Rightarrow> bool \<Rightarrow> error + int" where
  "find_slot p makeItSafe =
    (let end = (if makeItSafe then mnLookahead p else 0) in
     case dedup_scan p end (nAction p - 1) of
       Inl e \<Rightarrow> Inl e
     | Inr i \<Rightarrow>
         if i < end then hole_scan p (if makeItSafe then mnLookahead p else 0)
         else Inr i)"

definition acttab_insert :: "acttab \<Rightarrow> bool \<Rightarrow> error + (acttab \<times> int)" where
  "acttab_insert p0 makeItSafe =
    (if nLookahead p0 \<le> 0 then Inl WantLookahead
     else
       case grow p0 of
         Inl e \<Rightarrow> Inl e
       | Inr p \<Rightarrow>
           (case find_slot p makeItSafe of
              Inl e \<Rightarrow> Inl e
            | Inr i \<Rightarrow>
                (case install p i 0 of
                   Inl e \<Rightarrow> Inl e
                 | Inr p' \<Rightarrow>
                     let p'' = (if makeItSafe \<and> i + nterminal p' \<ge> nAction p'
                                then p'\<lparr>nAction := i + nterminal p' + 1\<rparr> else p')
                     in Inr (p''\<lparr>nLookahead := 0\<rparr>, i - mnLookahead p''))))"

declare fill_empty.simps [simp del] match_row.simps [simp del] count_alias.simps [simp del]
  dedup_scan.simps [simp del] hole_fits.simps [simp del] alias_free.simps [simp del]
  hole_scan.simps [simp del] install.simps [simp del]

section \<open>Auxiliary predicates for the action table\<close>

definition pending :: "acttab \<Rightarrow> lookahead_action list" where
  "pending p = take (nat (nLookahead p)) (aLookahead p)"

definition acttab_ok :: "acttab \<Rightarrow> bool" where
  "acttab_ok p \<longleftrightarrow>
     nActionAlloc p = int (length (aAction p)) \<and> 0 \<le> nAction p \<and> 0 \<le> nsymbol p
   \<and> (\<forall>k. nat (nAction p) \<le> k \<and> k < length (aAction p) \<longrightarrow> aAction p ! k = empty_entry)
   \<and> (\<forall>k < length (aAction p). - 1 \<le> lookahead (aAction p ! k))
   \<and> nLookaheadAlloc p = int (length (aLookahead p))
   \<and> 0 \<le> nLookahead p \<and> nLookahead p \<le> nLookaheadAlloc p"

definition row_ok :: "acttab \<Rightarrow> bool" where
  "row_ok p \<longleftrightarrow>
     0 < nLookahead p \<and> 0 \<le> mnLookahead p \<and> mxLookahead p < nsymbol p
   \<and> (\<forall>e \<in> set (pending p). mnLookahead p \<le> lookahead e \<and> lookahead e \<le> mxLookahead p)"

definition row_hit :: "acttab \<Rightarrow> int \<Rightarrow> int \<Rightarrow> bool" where
  "row_hit p i j \<longleftrightarrow>
     (let a = aLookahead p ! nat j; k = lookahead a - mnLookahead p + i
      in 0 \<le> k \<and> k < nAction p \<and> aAction p ! nat k = a)"

definition row_free :: "acttab \<Rightarrow> int \<Rightarrow> int \<Rightarrow> bool" where
  "row_free p i j \<longleftrightarrow>
     (let a = aLookahead p ! nat j; k = lookahead a - mnLookahead p + i
      in 0 \<le> k \<and> lookahead (aAction p ! nat k) < 0)"

definition slot_accepts :: "acttab \<Rightarrow> int \<Rightarrow> bool" where
  "slot_accepts p c \<longleftrightarrow>
     lookahead (aAction p ! nat c) < 0
   \<and> (\<forall>j'. 0 \<le> j' \<and> j' < nLookahead p \<longrightarrow> row_free p c j')
   \<and> (\<forall>j'. 0 \<le> j' \<and> j' < nAction p \<longrightarrow>
         lookahead (aAction p ! nat j') \<noteq> j' + mnLookahead p - c)"

definition row_slot :: "acttab \<Rightarrow> int \<Rightarrow> int \<Rightarrow> int" where
  "row_slot p i j = lookahead (aLookahead p ! nat j) - mnLookahead p + i"

definition has_room :: "acttab \<Rightarrow> bool" where
  "has_room p \<longleftrightarrow> nAction p + nsymbol p + 1 < nActionAlloc p"

section \<open>Counting and packing the rows of the states\<close>

definition NO_OFFSET :: int where
  "NO_OFFSET = - 2147483647"

text \<open>The fields of \<^verbatim>\<open>state\<close> that \<^verbatim>\<open>ResortStates\<close> and \<^verbatim>\<open>ReportTable\<close> use. The linked list
  of actions \<^verbatim>\<open>stp.ap\<close> is a list.\<close>

record state =
  statenum :: int
  ap :: "action list"
  nTknAct :: int
  nNtAct :: int
  iTknOfst :: int
  iNtOfst :: int
  iDfltReduce :: int
  pDfltReduce :: "rule option"
  autoReduce :: bool

text \<open>The inner loop of \<^verbatim>\<open>ResortStates\<close> over the actions of one state.\<close>

fun count_actions :: "lemon \<Rightarrow> state \<Rightarrow> action list \<Rightarrow> error + state" where
  "count_actions lemp st [] = Inr st"
| "count_actions lemp st (a # as) =
    (case compute_action lemp a of
       Inl e \<Rightarrow> Inl e
     | Inr iAction \<Rightarrow>
         if iAction \<ge> 0 then
           if index (sp a) < lemon.nterminal lemp then
             count_actions lemp (st\<lparr>nTknAct := nTknAct st + 1\<rparr>) as
           else if index (sp a) < lemon.nsymbol lemp then
             count_actions lemp (st\<lparr>nNtAct := nNtAct st + 1\<rparr>) as
           else if autoReduce st \<and> pDfltReduce st \<noteq> rp (x_union a) then Inl AssertFailed
           else count_actions lemp (st\<lparr>iDfltReduce := iAction\<rparr>) as
         else count_actions lemp st as)"

text \<open>The body of the first loop of \<^verbatim>\<open>ResortStates\<close> for one state.\<close>

definition ResortStates_state :: "lemon \<Rightarrow> state \<Rightarrow> error + state" where
  "ResortStates_state lemp st =
     count_actions lemp
       (st\<lparr>nTknAct := 0, nNtAct := 0, iDfltReduce := - 1, iTknOfst := NO_OFFSET, iNtOfst := NO_OFFSET\<rparr>)
       (ap st)"

text \<open>\<^verbatim>\<open>ResortStates\<close> then renumbers the states. An action points to its target state, so
  the state number read through \<^verbatim>\<open>ap.x.stp\<close> changes: \<open>f\<close> maps old numbers to new ones.\<close>

definition renumber :: "(int \<Rightarrow> int) \<Rightarrow> action \<Rightarrow> action" where
  "renumber f a = a\<lparr>x_union := (x_union a)\<lparr>stp := map_option f (stp (x_union a))\<rparr>\<rparr>"

text \<open>An entry of the array \<^verbatim>\<open>ax\<close> of \<^verbatim>\<open>ReportTable\<close>. The state pointer is modelled by the
  state; the packing loop only reads its actions.\<close>

record axset =
  stp_ax :: state
  isTkn :: bool
  nAction_ax :: int
  iOrder :: int

text \<open>The two entries that \<^verbatim>\<open>ReportTable\<close> makes for the state \<^verbatim>\<open>lemp.sorted[i]\<close>.\<close>

definition ax_of_state :: "int \<Rightarrow> state \<Rightarrow> axset list" where
  "ax_of_state i st =
     [\<lparr>stp_ax = st, isTkn = True, nAction_ax = nTknAct st, iOrder = i * 2\<rparr>,
      \<lparr>stp_ax = st, isTkn = False, nAction_ax = nNtAct st, iOrder = i * 2 + 1\<rparr>]"

text \<open>The loop over the actions of a state that fills the row of the terminals, and the
  one that fills the row of the nonterminals.\<close>

fun token_row :: "lemon \<Rightarrow> acttab \<Rightarrow> action list \<Rightarrow> error + acttab" where
  "token_row lemp p [] = Inr p"
| "token_row lemp p (a # as) =
    (if index (sp a) \<ge> lemon.nterminal lemp then token_row lemp p as
     else
       case compute_action lemp a of
         Inl e \<Rightarrow> Inl e
       | Inr act \<Rightarrow>
           if act < 0 then token_row lemp p as
           else
             (case acttab_action p (index (sp a)) act of
                Inl e \<Rightarrow> Inl e
              | Inr p' \<Rightarrow> token_row lemp p' as))"

fun nonterminal_row :: "lemon \<Rightarrow> acttab \<Rightarrow> action list \<Rightarrow> error + acttab" where
  "nonterminal_row lemp p [] = Inr p"
| "nonterminal_row lemp p (a # as) =
    (if index (sp a) < lemon.nterminal lemp then nonterminal_row lemp p as
     else if index (sp a) = lemon.nsymbol lemp then nonterminal_row lemp p as
     else
       case compute_action lemp a of
         Inl e \<Rightarrow> Inl e
       | Inr act \<Rightarrow>
           if act < 0 then nonterminal_row lemp p as
           else
             (case acttab_action p (index (sp a)) act of
                Inl e \<Rightarrow> Inl e
              | Inr p' \<Rightarrow> nonterminal_row lemp p' as))"

text \<open>The packing loop of \<^verbatim>\<open>ReportTable\<close> over the sorted array \<^verbatim>\<open>ax\<close>, from the table
  \<open>p\<close>. It stops at the first entry without actions. The result is the table and, for
  each row inserted, the offset that the loop stores in \<^verbatim>\<open>iTknOfst\<close> or \<^verbatim>\<open>iNtOfst\<close> of the
  state of the row.\<close>

fun ReportTable_pack :: "lemon \<Rightarrow> acttab \<Rightarrow> axset list \<Rightarrow> error + (acttab \<times> int list)" where
  "ReportTable_pack lemp p [] = Inr (p, [])"
| "ReportTable_pack lemp p (a # ax) =
    (if nAction_ax a > 0 then
       (case (if isTkn a then token_row lemp p (ap (stp_ax a))
              else nonterminal_row lemp p (ap (stp_ax a))) of
          Inl e \<Rightarrow> Inl e
        | Inr p1 \<Rightarrow>
            (case acttab_insert p1 (isTkn a) of
               Inl e \<Rightarrow> Inl e
             | Inr (p2, ofs) \<Rightarrow>
                 (case ReportTable_pack lemp p2 ax of
                    Inl e \<Rightarrow> Inl e
                  | Inr (p3, offs) \<Rightarrow> Inr (p3, ofs # offs))))
     else Inr (p, []))"

section \<open>Auxiliary notions for the rows\<close>

text \<open>The pairs of lookahead and action code that the row loops hand to
  \<^verbatim>\<open>acttab_action\<close>, in order.\<close>

fun row_entries :: "lemon \<Rightarrow> bool \<Rightarrow> action list \<Rightarrow> (int \<times> int) list" where
  "row_entries lemp tkn [] = []"
| "row_entries lemp tkn (a # as) =
    (if (if tkn then index (sp a) < lemon.nterminal lemp
         else lemon.nterminal lemp \<le> index (sp a) \<and> index (sp a) \<noteq> lemon.nsymbol lemp)
     then (case compute_action lemp a of
             Inr act \<Rightarrow> if 0 \<le> act then (index (sp a), act) # row_entries lemp tkn as
                        else row_entries lemp tkn as
           | Inl e \<Rightarrow> row_entries lemp tkn as)
     else row_entries lemp tkn as)"

fun add_actions :: "acttab \<Rightarrow> (int \<times> int) list \<Rightarrow> error + acttab" where
  "add_actions p [] = Inr p"
| "add_actions p (e # es) =
    (case acttab_action p (fst e) (snd e) of Inl er \<Rightarrow> Inl er | Inr p' \<Rightarrow> add_actions p' es)"

definition entry_of :: "int \<times> int \<Rightarrow> lookahead_action" where
  "entry_of e = \<lparr>lookahead = fst e, action = snd e\<rparr>"

text \<open>What the parser generator guarantees of the numbers it hands to the table: the
  boundaries are not negative and terminals are numbered before nonterminals; the
  lookahead of an action is a symbol index from 0 to \<open>nsymbol\<close> (\<open>nsymbol\<close> is the index of
  \<^verbatim>\<open>{default}\<close>), a shift points to a state and a reduce to a rule, numbered from 0.\<close>

definition lemon_ok :: "lemon \<Rightarrow> bool" where
  "lemon_ok lemp \<longleftrightarrow>
     0 \<le> minShiftReduce lemp \<and> 0 \<le> minReduce lemp \<and> 0 \<le> errAction lemp \<and> 0 \<le> accAction lemp
   \<and> 0 \<le> lemon.nsymbol lemp \<and> lemon.nterminal lemp \<le> lemon.nsymbol lemp"

definition action_ok :: "lemon \<Rightarrow> action \<Rightarrow> bool" where
  "action_ok lemp a \<longleftrightarrow>
     0 \<le> index (sp a) \<and> index (sp a) \<le> lemon.nsymbol lemp
   \<and> (typ_act a = SHIFT \<longrightarrow> (\<exists>n. stp (x_union a) = Some n \<and> 0 \<le> n))
   \<and> (typ_act a = REDUCE \<or> typ_act a = SHIFTREDUCE \<longrightarrow>
        (\<exists>r. rp (x_union a) = Some r \<and> 0 \<le> iRule r))"

definition emitted_type :: "e_action \<Rightarrow> bool" where
  "emitted_type t \<longleftrightarrow> t = SHIFT \<or> t = SHIFTREDUCE \<or> t = REDUCE \<or> t = ERROR \<or> t = ACCEPT"

definition ax_ok :: "lemon \<Rightarrow> axset \<Rightarrow> bool" where
  "ax_ok lemp a \<longleftrightarrow>
     list_all (action_ok lemp) (ap (stp_ax a))
   \<and> (0 < nAction_ax a \<longrightarrow> row_entries lemp (isTkn a) (ap (stp_ax a)) \<noteq> [])"

definition last_on :: "(int \<times> int) list \<Rightarrow> nat \<Rightarrow> bool" where
  "last_on es j \<longleftrightarrow> (\<forall>j'. j < j' \<and> j' < length es \<longrightarrow> fst (es ! j') \<noteq> fst (es ! j))"

definition row_installed :: "acttab \<Rightarrow> int \<Rightarrow> (int \<times> int) list \<Rightarrow> bool" where
  "row_installed p ofs es \<longleftrightarrow>
     (\<forall>j < length es. 0 \<le> ofs + fst (es ! j) \<and> ofs + fst (es ! j) < int (length (aAction p))
        \<and> (last_on es j \<longrightarrow> aAction p ! nat (ofs + fst (es ! j)) = entry_of (es ! j)))"

definition preserves :: "acttab \<Rightarrow> acttab \<Rightarrow> bool" where
  "preserves p p' \<longleftrightarrow>
     length (aAction p) \<le> length (aAction p')
   \<and> (\<forall>k < length (aAction p). 0 \<le> lookahead (aAction p ! k) \<longrightarrow> aAction p' ! k = aAction p ! k)"

definition in_row :: "lemon \<Rightarrow> bool \<Rightarrow> action \<Rightarrow> bool" where
  "in_row lemp tkn a \<longleftrightarrow>
     emitted_type (typ_act a)
   \<and> (if tkn then index (sp a) < lemon.nterminal lemp
       else lemon.nterminal lemp \<le> index (sp a) \<and> index (sp a) \<noteq> lemon.nsymbol lemp)"

definition ax_counted :: "lemon \<Rightarrow> axset \<Rightarrow> bool" where
  "ax_counted l0 a \<longleftrightarrow>
     (\<exists>st0 st f i. list_all (action_ok l0) (ap st0) \<and> (\<forall>n. 0 \<le> n \<longrightarrow> 0 \<le> f n)
        \<and> ResortStates_state l0 st0 = Inr st
        \<and> a \<in> set (ax_of_state i (st\<lparr>ap := map (renumber f) (ap st)\<rparr>)))"

section \<open>Examples\<close>

text \<open>Examples. A grammar record with six states and two rules, symbols 0 to 4
  terminals (\<open>$\<close>, \<open>PLUS\<close>, \<open>TIMES\<close>, \<open>EQ\<close>, \<open>FOO\<close>), symbol 5 the nonterminal \<open>expr\<close>
  and symbol 6 \<^verbatim>\<open>{default}\<close>: before and after \<^verbatim>\<open>ReportTable\<close> computes the boundaries.\<close>

definition lemon_before :: lemon where
  "lemon_before =
    \<lparr>nstate = 6, nxstate = 6, nrule = 2, nsymbol = 6, nterminal = 5,
     minShiftReduce = 0, errAction = 0, accAction = 0, noAction = 0, minReduce = 0,
     maxAction = 0, errsym = None, errorcnt = 0, nconflict = 0,
     printPreprocessed = False\<rparr>"

definition lemon_after :: lemon where
  "lemon_after = ReportTable_boundaries lemon_before"

definition state_of :: "action list \<Rightarrow> state" where
  "state_of as = \<lparr>statenum = 3, ap = as, nTknAct = 0, nNtAct = 0, iTknOfst = 0,
     iNtOfst = 0, iDfltReduce = 0, pDfltReduce = None, autoReduce = False\<rparr>"

text \<open>The actions of a state with the items \<open>expr ::= expr EQ expr .\<close> and
  \<open>expr ::= expr . EQ expr\<close>, where \<open>EQ\<close> is declared \<^verbatim>\<open>%nonassoc\<close>: the shift on \<open>EQ\<close>, turned
  into an error by \<^verbatim>\<open>resolve_conflict\<close>, and the reduce on \<open>EQ\<close>.\<close>

definition nonassoc_actions :: "action list" where
  "nonassoc_actions = [(shift_on EQ_sym)\<lparr>typ_act := ERROR\<rparr>, reduce_on EQ_sym 0 (Some EQ_sym)]"

text \<open>The actions of a state with a shift on \<open>PLUS\<close>, a reduce on \<open>TIMES\<close> and a shift on the
  nonterminal \<open>expr\<close>.\<close>

definition plain_actions :: "action list" where
  "plain_actions =
     [shift_on PLUS_sym, reduce_on TIMES_sym 1 None,
      \<lparr>sp = sym_ex ''expr'' 5 NONTERMINAL, typ_act = SHIFT, x_union = \<lparr>stp = Some 1, rp = None\<rparr>\<rparr>]"

definition swap_1_5 :: "int \<Rightarrow> int" where
  "swap_1_5 n = (if n = 1 then 5 else if n = 5 then 1 else n)"

text \<open>The used part of the table and the offsets of a result of the packing loop.\<close>

definition packed :: "error + (acttab \<times> int list) \<Rightarrow> error + ((int \<times> int) list \<times> int list)" where
  "packed r =
     (case r of
        Inl e \<Rightarrow> Inl e
      | Inr (p, offs) \<Rightarrow>
          Inr (map (\<lambda>e. (lookahead e, action e)) (take (nat (nAction p)) (aAction p)), offs))"

text \<open>A table with one pending entry, or two.\<close>

definition pending_row :: "int \<Rightarrow> int \<Rightarrow> (int \<times> int) list \<Rightarrow> acttab" where
  "pending_row nsym nterm es =
     (case add_actions (acttab_alloc nsym nterm) es of Inr p \<Rightarrow> p | Inl e \<Rightarrow> acttab_alloc nsym nterm)"

text \<open>The state of \<open>plain_actions\<close> as \<^verbatim>\<open>ResortStates\<close> leaves it.\<close>

definition counted_state :: state where
  "counted_state = (state_of plain_actions)\<lparr>nTknAct := 2, nNtAct := 1, iDfltReduce := - 1,
     iTknOfst := NO_OFFSET, iNtOfst := NO_OFFSET\<rparr>"

section \<open>The driver\<close>

text \<open>
  \<^verbatim>\<open>main\<close> calls the stages of the pipeline in a fixed order and decides the exit code.
  The stages are parameters of the model: a stage takes the grammar record and either
  returns it, changed, or ends the process itself, and then gives the argument of its
  \<^verbatim>\<open>os.Exit\<close> (2 for a panic). \<open>IndexSymbols\<close> stands for the code of
  \<^verbatim>\<open>main\<close> between \<^verbatim>\<open>Parse\<close> and the analysis that numbers the symbols and the rules; it
  can end the process through \<^verbatim>\<open>assert\<close>.
\<close>

datatype stage =
    Parse | IndexSymbols | Reprint | FindRulePrecedences | FindFirstSets | FindStates
  | FindLinks | FindFollowSets | FindActions | CompressTables | ResortStates
  | ReportOutput | ReportTable

type_synonym stages = "stage \<Rightarrow> lemon \<Rightarrow> int + lemon"

text \<open>The command line: the flags that \<^verbatim>\<open>main\<close> reads and the number of file names.\<close>

record flags =
  version :: bool
  nargs :: nat
  printPP :: bool
  rpflag :: bool
  compress :: bool
  noResort :: bool
  quiet :: bool

text \<open>
  \<^verbatim>\<open>os.Exit(n)\<close> ends the process. The exit status that the parent of the process reads
  keeps the low eight bits of \<open>n\<close> (on Linux and the other Unix systems).
\<close>

definition exit_status :: "int \<Rightarrow> int" where
  "exit_status n = n mod 256"

text \<open>The outcome of a run: the stages called, in order, the exit status of the process,
  and the grammar record at the last statement of \<^verbatim>\<open>main\<close> when the run gets there.\<close>

record outcome =
  trace :: "stage list"
  code :: int
  final :: "lemon option"

text \<open>Calling stages one after the other, until one ends the process.\<close>

fun run_stages :: "stages \<Rightarrow> stage list \<Rightarrow> lemon \<Rightarrow> stage list \<times> (int + lemon)" where
  "run_stages st [] lem = ([], Inr lem)"
| "run_stages st (s # ss) lem =
     (case st s lem of
        Inl c \<Rightarrow> ([s], Inl c)
      | Inr lem' \<Rightarrow> (case run_stages st ss lem' of (t, r) \<Rightarrow> (s # t, r)))"

text \<open>The stages that \<^verbatim>\<open>main\<close> calls in the \<^verbatim>\<open>else\<close> branch of \<^verbatim>\<open>if rpflag\<close>.\<close>

definition analysis :: "flags \<Rightarrow> stage list" where
  "analysis fl =
     [FindRulePrecedences, FindFirstSets, FindStates, FindLinks, FindFollowSets, FindActions]
     @ (if \<not> compress fl then [CompressTables] else [])
     @ (if \<not> noResort fl then [ResortStates] else [])
     @ (if \<not> quiet fl then [ReportOutput] else [])
     @ [ReportTable]"

definition lemon_start :: "flags \<Rightarrow> lemon" where
  "lemon_start fl =
     \<lparr>nstate = 0, nxstate = 0, nrule = 0, nsymbol = 0, nterminal = 0, minShiftReduce = 0,
      errAction = 0, accAction = 0, noAction = 0, minReduce = 0, maxAction = 0, errsym = None,
      errorcnt = 0, nconflict = 0, printPreprocessed = printPP fl\<rparr>"

definition main :: "stages \<Rightarrow> flags \<Rightarrow> outcome" where
  "main st fl =
    (if version fl then \<lparr>trace = [], code = 0, final = None\<rparr>
     else if nargs fl \<noteq> 1 then \<lparr>trace = [], code = 1, final = None\<rparr>
     else
       case st Parse (lemon_start fl) of
         Inl c \<Rightarrow> \<lparr>trace = [Parse], code = exit_status c, final = None\<rparr>
       | Inr lem1 \<Rightarrow>
           if printPreprocessed lem1 \<or> errorcnt lem1 > 0
           then \<lparr>trace = [Parse], code = exit_status (errorcnt lem1), final = None\<rparr>
           else if nrule lem1 = 0 then \<lparr>trace = [Parse], code = 1, final = None\<rparr>
           else
             (case run_stages st (IndexSymbols # (if rpflag fl then [Reprint] else analysis fl)) lem1 of
                (t, Inl c) \<Rightarrow> \<lparr>trace = Parse # t, code = exit_status c, final = None\<rparr>
              | (t, Inr lem2) \<Rightarrow>
                  \<lparr>trace = Parse # t,
                   code = (if errorcnt lem2 > 0 \<or> nconflict lem2 > 0 then 1 else 0),
                   final = Some lem2\<rparr>))"

text \<open>Stages for the examples: \<^verbatim>\<open>Parse\<close> reads one rule and reports \<open>n\<close> errors; every other
  stage returns the record as it is, except \<^verbatim>\<open>FindActions\<close>, which reports \<open>m\<close> errors
  (rules that cannot be reduced).\<close>

definition stages_ex :: "int \<Rightarrow> int \<Rightarrow> stages" where
  "stages_ex n m s lem =
     (if s = Parse then Inr (lem\<lparr>nrule := 1, errorcnt := n\<rparr>)
      else if s = FindActions then Inr (lem\<lparr>errorcnt := errorcnt lem + m\<rparr>)
      else Inr lem)"

definition flags_ex :: flags where
  "flags_ex = \<lparr>version = False, nargs = 1, printPP = False, rpflag = False, compress = False,
     noResort = False, quiet = False\<rparr>"


section \<open>The symbol table and the numbering of the symbols\<close>

text \<open>
  A Go string is a sequence of bytes; \<^verbatim>\<open>for _, r := range s\<close> decodes it as UTF-8, and a
  byte that starts no valid encoding decodes to \<^verbatim>\<open>U+FFFD\<close>. \<open>firstRune\<close> is the first value
  of that iteration, \<open>None\<close> for the empty string.
\<close>

definition RuneError :: nat where
  "RuneError = 0xFFFD"

definition cont :: "char \<Rightarrow> nat \<Rightarrow> nat \<Rightarrow> bool" where
  "cont c lo hi = (lo \<le> of_char c \<and> of_char c \<le> hi)"

definition low6 :: "char \<Rightarrow> nat" where
  "low6 c = of_char c mod 64"

fun firstRune :: "string \<Rightarrow> nat option" where
  "firstRune [] = None"
| "firstRune (c # cs) = Some (let b0 = of_char c in
     if b0 < 0x80 then b0
     else if 0xC2 \<le> b0 \<and> b0 \<le> 0xDF then
       (case cs of
          c1 # _ \<Rightarrow> if cont c1 0x80 0xBF then (b0 mod 32) * 64 + low6 c1 else RuneError
        | _ \<Rightarrow> RuneError)
     else if 0xE0 \<le> b0 \<and> b0 \<le> 0xEF then
       (case cs of
          c1 # c2 # _ \<Rightarrow>
            if cont c1 (if b0 = 0xE0 then 0xA0 else 0x80) (if b0 = 0xED then 0x9F else 0xBF)
               \<and> cont c2 0x80 0xBF
            then (b0 mod 16) * 4096 + low6 c1 * 64 + low6 c2 else RuneError
        | _ \<Rightarrow> RuneError)
     else if 0xF0 \<le> b0 \<and> b0 \<le> 0xF4 then
       (case cs of
          c1 # c2 # c3 # _ \<Rightarrow>
            if cont c1 (if b0 = 0xF0 then 0x90 else 0x80) (if b0 = 0xF4 then 0x8F else 0xBF)
               \<and> cont c2 0x80 0xBF \<and> cont c3 0x80 0xBF
            then (b0 mod 8) * 262144 + low6 c1 * 4096 + low6 c2 * 64 + low6 c3 else RuneError
        | _ \<Rightarrow> RuneError)
     else RuneError)"

text \<open>
  \<^verbatim>\<open>unicode.IsUpper\<close> and \<^verbatim>\<open>unicode.IsLetter\<close> are tables of the Go library: they are
  parameters \<open>up\<close> and \<open>letter\<close> of the model, predicates on code points.
\<close>

definition firstRuneIsUpper :: "(nat \<Rightarrow> bool) \<Rightarrow> string \<Rightarrow> bool" where
  "firstRuneIsUpper up s = (case firstRune s of None \<Rightarrow> False | Some r \<Rightarrow> up r)"

text \<open>
  The table \<^verbatim>\<open>x2a\<close> with its list of keys \<^verbatim>\<open>x2a_keys\<close>: the symbols in the order of their
  insertion, no two with the same name. A pointer to a symbol is the name of the symbol.
\<close>

type_synonym symtab = "symbol list"

definition Symbol_find :: "symtab \<Rightarrow> string \<Rightarrow> symbol option" where
  "Symbol_find tab key = find (\<lambda>s. name s = key) tab"

definition Symbol_new :: "(nat \<Rightarrow> bool) \<Rightarrow> string \<Rightarrow> symtab \<Rightarrow> symtab" where
  "Symbol_new up x tab =
     (case Symbol_find tab x of
        Some _ \<Rightarrow> tab
      | None \<Rightarrow> tab @ [\<lparr>name = x, index = 0,
                       typ_sym = (if firstRuneIsUpper up x then TERMINAL else NONTERMINAL),
                       prec = - 1, assoc = UNK, subsym = []\<rparr>])"

definition Symbol_count :: "symtab \<Rightarrow> int" where
  "Symbol_count tab = int (length tab)"

text \<open>\<^verbatim>\<open>Symbolcmpp\<close>: the two \<^verbatim>\<open>switch\<close> statements compute the same function of a symbol,
  \<open>sort_class\<close>; \<^verbatim>\<open>a.name[0]\<close> is the first byte of the name.\<close>

definition sort_class :: "symbol \<Rightarrow> int" where
  "sort_class a =
     (if typ_sym a = MULTITERMINAL then 3
      else if name a \<noteq> [] \<and> of_char (hd (name a)) > (of_char CHR ''Z'' :: nat) then 2
      else 1)"

definition Symbolcmpp :: "symbol \<Rightarrow> symbol \<Rightarrow> int" where
  "Symbolcmpp a b =
     (let i1 = sort_class a; i2 = sort_class b
      in if i1 = i2 then index a - index b else i1 - i2)"

definition symbolSorter_Less :: "symbol \<Rightarrow> symbol \<Rightarrow> bool" where
  "symbolSorter_Less a b = (Symbolcmpp a b < 0)"

text \<open>
  \<^verbatim>\<open>sort.Sort\<close> is library code: it returns a permutation of the slice in which no element
  is \<open>Less\<close> than an element before it. Here it is the sort by insertion. \<open>Less\<close> of the
  symbols is a strict total order on symbols of different index, so the array has one
  permutation in that order only, whatever the algorithm (lemma \<open>sort_Sort_unique\<close>).
\<close>

fun sort_insert :: "('a \<Rightarrow> 'a \<Rightarrow> bool) \<Rightarrow> 'a \<Rightarrow> 'a list \<Rightarrow> 'a list" where
  "sort_insert lt x [] = [x]"
| "sort_insert lt x (y # ys) = (if lt x y then x # y # ys else y # sort_insert lt x ys)"

definition sort_Sort :: "('a \<Rightarrow> 'a \<Rightarrow> bool) \<Rightarrow> 'a list \<Rightarrow> 'a list" where
  "sort_Sort lt xs = foldr (sort_insert lt) xs []"

text \<open>\<^verbatim>\<open>for i := 0; i < lem.nsymbol; i++ { lem.symbols[i].index = i }\<close>\<close>

definition reindex :: "symbol list \<Rightarrow> symbol list" where
  "reindex xs = map (\<lambda>(i, s). s\<lparr>index := int i\<rparr>) (enumerate 0 xs)"

text \<open>\<^verbatim>\<open>for lem.symbols[i-1].typ == MULTITERMINAL { i-- }\<close>\<close>

function skip_multi :: "symbol list \<Rightarrow> int \<Rightarrow> error + int" where
  "skip_multi symbols i =
     (case slice_get symbols (i - 1) of
        Inl e \<Rightarrow> Inl e
      | Inr s \<Rightarrow> if typ_sym s = MULTITERMINAL then skip_multi symbols (i - 1) else Inr i)"
  by pat_completeness auto
termination
  by (relation "measure (\<lambda>(symbols, i). nat i)") (auto simp: slice_get_def split: if_splits)

text \<open>\<^verbatim>\<open>for i = 1; firstRuneIsUpper(lem.symbols[i].name); i++ { }\<close>\<close>

function count_upper :: "(nat \<Rightarrow> bool) \<Rightarrow> symbol list \<Rightarrow> int \<Rightarrow> error + int" where
  "count_upper up symbols i =
     (case slice_get symbols i of
        Inl e \<Rightarrow> Inl e
      | Inr s \<Rightarrow> if firstRuneIsUpper up (name s) then count_upper up symbols (i + 1) else Inr i)"
  by pat_completeness auto
termination
  by (relation "measure (\<lambda>(up, symbols, i). nat (int (length symbols) - i))")
     (auto simp: slice_get_def split: if_splits)

declare skip_multi.simps [simp del] count_upper.simps [simp del]

text \<open>
  The part of \<^verbatim>\<open>main\<close> that counts and indexes the symbols, from
  \<^verbatim>\<open>Symbol_new("{default}")\<close> to \<^verbatim>\<open>lem.nterminal = i\<close>. The result is the array
  \<^verbatim>\<open>lem.symbols\<close>, \<^verbatim>\<open>lem.nsymbol\<close> and \<^verbatim>\<open>lem.nterminal\<close>.
\<close>

definition index_symbols :: "(nat \<Rightarrow> bool) \<Rightarrow> symtab \<Rightarrow> error + (symbol list \<times> int \<times> int)" where
  "index_symbols up tab0 =
     (let tab = Symbol_new up ''{default}'' tab0;
          n = Symbol_count tab;
          symbols = reindex tab;
          symbols = reindex (sort_Sort symbolSorter_Less symbols)
      in case skip_multi symbols n of
           Inl e \<Rightarrow> Inl e
         | Inr i \<Rightarrow>
             (case slice_get symbols (i - 1) of
                Inl e \<Rightarrow> Inl e
              | Inr s \<Rightarrow>
                  if name s \<noteq> ''{default}'' then Inl AssertFailed
                  else (case count_upper up symbols 1 of
                          Inl e \<Rightarrow> Inl e
                        | Inr nt \<Rightarrow> Inr (symbols, i - 1, nt))))"

text \<open>
  What the grammar file does to the table. \<^verbatim>\<open>parseonetoken\<close> calls \<^verbatim>\<open>Symbol_new\<close> on an
  identifier \<open>x\<close> only behind a test of its first rune: \<^verbatim>\<open>unicode.IsLetter\<close> (a symbol on the
  right-hand side of a rule, the argument of \<^verbatim>\<open>%destructor\<close> or \<^verbatim>\<open>%type\<close>), \<^verbatim>\<open>islower\<close> (the
  left-hand side of a rule) or \<^verbatim>\<open>unicode.IsUpper\<close> (a precedence mark, the arguments of
  \<^verbatim>\<open>%left\<close>, \<^verbatim>\<open>%right\<close>, \<^verbatim>\<open>%nonassoc\<close>, \<^verbatim>\<open>%fallback\<close>, \<^verbatim>\<open>%token\<close> and \<^verbatim>\<open>%wildcard\<close>): this is
  \<open>Intern\<close>, and when the test fails the error count goes up and the table stays as it
  is. \<^verbatim>\<open>%token_class x\<close> creates \<open>x\<close> as a new symbol and makes it a multiterminal
  (\<open>TokenClass\<close>), and every token \<open>y\<close> that follows is appended to the constituents of the
  class \<open>c\<close> (\<open>ClassToken\<close>).

  \<open>Compound c y\<close> is the token \<^verbatim>\<open>|y\<close> or \<^verbatim>\<open>/y\<close> on a right-hand side whose last symbol so far
  is named \<open>c\<close>. When that symbol is a multiterminal of the table (a token class), \<open>y\<close> is
  appended to its constituents. Otherwise the source replaces it on the right-hand side
  by a multiterminal that is not entered in the table, has the name \<open>c\<close> and has the symbol
  \<open>c\<close> as its first constituent, or has done so at an earlier \<^verbatim>\<open>|\<close>; the table only gets \<open>y\<close>.
  In both cases an error is counted when \<open>y\<close> or the first constituent begins with a lower
  case letter.

  In \<open>ClassToken c y\<close> and \<open>Compound c y\<close> the source holds a pointer to the symbol \<open>c\<close> of
  the table; a \<open>c\<close> that names no symbol of the table (or, for \<open>ClassToken\<close>, no
  multiterminal) stands for no call of the source and leaves the table as it is. The
  count \<open>errs\<close> is the number of errors that the tests shown here report; the errors that
  \<^verbatim>\<open>parseonetoken\<close> reports for other reasons are not part of the model.
\<close>

datatype guard = AnyLetter | Lower | Upper

datatype decl =
    Intern guard string
  | TokenClass string
  | ClassToken string string
  | Compound string string

definition islower :: "(nat \<Rightarrow> bool) \<Rightarrow> (nat \<Rightarrow> bool) \<Rightarrow> nat \<Rightarrow> bool" where
  "islower letter up r = (letter r \<and> \<not> up r)"

definition passes :: "(nat \<Rightarrow> bool) \<Rightarrow> (nat \<Rightarrow> bool) \<Rightarrow> guard \<Rightarrow> string \<Rightarrow> bool" where
  "passes letter up g x =
     (case firstRune x of
        None \<Rightarrow> False
      | Some x0 \<Rightarrow> (case g of AnyLetter \<Rightarrow> letter x0 | Lower \<Rightarrow> islower letter up x0 | Upper \<Rightarrow> up x0))"

definition add_subsym :: "string \<Rightarrow> string \<Rightarrow> symtab \<Rightarrow> symtab" where
  "add_subsym c y tab = map (\<lambda>s. if name s = c then s\<lparr>subsym := subsym s @ [y]\<rparr> else s) tab"

fun parseonetoken :: "(nat \<Rightarrow> bool) \<Rightarrow> (nat \<Rightarrow> bool) \<Rightarrow> decl \<Rightarrow> symtab \<times> int \<Rightarrow> symtab \<times> int" where
  "parseonetoken letter up (Intern g x) (tab, errs) =
     (if passes letter up g x then (Symbol_new up x tab, errs) else (tab, errs + 1))"
| "parseonetoken letter up (TokenClass x) (tab, errs) =
     (if \<not> passes letter up Lower x then (tab, errs + 1)
      else if Symbol_find tab x \<noteq> None then (tab, errs + 1)
      else (map (\<lambda>s. if name s = x then s\<lparr>typ_sym := MULTITERMINAL\<rparr> else s) (Symbol_new up x tab),
            errs))"
| "parseonetoken letter up (ClassToken c y) (tab, errs) =
     (if \<not> passes letter up Upper y then (tab, errs + 1)
      else case Symbol_find tab c of
             None \<Rightarrow> (tab, errs)
           | Some msp \<Rightarrow>
               if typ_sym msp = MULTITERMINAL then (add_subsym c y (Symbol_new up y tab), errs)
               else (tab, errs))"
| "parseonetoken letter up (Compound c y) (tab, errs) =
     (if \<not> passes letter up Upper y then (tab, errs + 1)
      else case Symbol_find tab c of
             None \<Rightarrow> (tab, errs)
           | Some msp \<Rightarrow>
               let tab' = (if typ_sym msp = MULTITERMINAL then add_subsym c y (Symbol_new up y tab)
                           else Symbol_new up y tab);
                   first = (if typ_sym msp = MULTITERMINAL then hd (subsym msp @ [y]) else c)
               in if passes letter up Lower y \<or> first \<noteq> [] \<and> passes letter up Lower first
                  then (tab', errs + 1) else (tab', errs))"

definition Parse_symbols :: "(nat \<Rightarrow> bool) \<Rightarrow> (nat \<Rightarrow> bool) \<Rightarrow> decl list \<Rightarrow> symtab \<times> int" where
  "Parse_symbols letter up ds = fold (parseonetoken letter up) ds (Symbol_new up ''$'' [], 0)"

text \<open>
  Examples. \<open>IsUpper_Latin1\<close> and \<open>IsLetter_Latin1\<close> are \<^verbatim>\<open>unicode.IsUpper\<close> and
  \<^verbatim>\<open>unicode.IsLetter\<close> on the code points up to \<^verbatim>\<open>U+00FF\<close>, the only ones that the examples
  use. \<open>grammar_latin\<close> is the file \<^verbatim>\<open>a ::= X.\<close> with the letter \<^verbatim>\<open>U+00C9\<close> for \<^verbatim>\<open>X\<close>;
  \<open>grammar_ascii\<close> is \<^verbatim>\<open>%token PLUS. %token_class num INT|FLOAT. expr ::= expr PLUS num.\<close>
  and \<open>grammar_compound\<close> is \<^verbatim>\<open>a ::= b|C.\<close>
\<close>

definition IsUpper_Latin1 :: "nat \<Rightarrow> bool" where
  "IsUpper_Latin1 r = (0x41 \<le> r \<and> r \<le> 0x5A \<or> 0xC0 \<le> r \<and> r \<le> 0xD6 \<or> 0xD8 \<le> r \<and> r \<le> 0xDE)"

definition IsLetter_Latin1 :: "nat \<Rightarrow> bool" where
  "IsLetter_Latin1 r = (0x41 \<le> r \<and> r \<le> 0x5A \<or> 0x61 \<le> r \<and> r \<le> 0x7A \<or> r = 0xAA \<or> r = 0xB5
     \<or> r = 0xBA \<or> 0xC0 \<le> r \<and> r \<le> 0xD6 \<or> 0xD8 \<le> r \<and> r \<le> 0xF6 \<or> 0xF8 \<le> r \<and> r \<le> 0xFF)"

definition E_acute :: string where
  "E_acute = [CHR 0xC3, CHR 0x89]"

definition grammar_latin :: "decl list" where
  "grammar_latin = [Intern Lower ''a'', Intern AnyLetter E_acute]"

definition grammar_ascii :: "decl list" where
  "grammar_ascii = [Intern Upper ''PLUS'', TokenClass ''num'', ClassToken ''num'' ''INT'',
     ClassToken ''num'' ''FLOAT'', Intern Lower ''expr'', Intern AnyLetter ''expr'',
     Intern AnyLetter ''PLUS'', Intern AnyLetter ''num'']"

definition grammar_compound :: "decl list" where
  "grammar_compound = [Intern Lower ''a'', Intern AnyLetter ''b'', Compound ''b'' ''C'']"

definition shape :: "error + (symbol list \<times> int \<times> int) \<Rightarrow> error + ((string \<times> int \<times> symbol_type \<times> string list) list \<times> int \<times> int)" where
  "shape r = map_sum id (\<lambda>(syms, ns, nt). (map (\<lambda>s. (name s, index s, typ_sym s, subsym s)) syms, ns, nt)) r"


subsection \<open>Auxiliary notions for the numbering\<close>

text \<open>
  The tables of the Go library on the ASCII range: the upper case letters are \<^verbatim>\<open>A\<close> to \<^verbatim>\<open>Z\<close>,
  the letters are these and \<^verbatim>\<open>a\<close> to \<^verbatim>\<open>z\<close>. \<open>table_ok\<close> is what the symbol table satisfies
  while a grammar whose symbol names begin with ASCII characters is read: \<^verbatim>\<open>$\<close> first, and
  after it names that begin with a letter, those with an upper case letter being the
  terminals; the constituents of a symbol are terminals of the table. \<open>numbered\<close> is the
  layout of the array after the sort: the end marker at 0, the terminals from 1 to
  \<open>nt - 1\<close>, then the nonterminals, \<^verbatim>\<open>{default}\<close> at \<open>ns\<close>, and the multiterminals after it.
  \<open>core\<close> is a symbol without its index, and \<open>sc\<close> is \<open>sort_class\<close> on it.
\<close>

definition ascii_tables :: "(nat \<Rightarrow> bool) \<Rightarrow> (nat \<Rightarrow> bool) \<Rightarrow> bool" where
  "ascii_tables letter up =
     (\<forall>r < 128. (up r \<longleftrightarrow> 0x41 \<le> r \<and> r \<le> 0x5A)
        \<and> (letter r \<longleftrightarrow> 0x41 \<le> r \<and> r \<le> 0x5A \<or> 0x61 \<le> r \<and> r \<le> 0x7A))"

definition ascii_initial :: "string \<Rightarrow> bool" where
  "ascii_initial x = (x \<noteq> [] \<and> of_char (hd x) < (128 :: nat))"

definition upper_name :: "string \<Rightarrow> bool" where
  "upper_name x = (x \<noteq> [] \<and> 0x41 \<le> (of_char (hd x) :: nat) \<and> (of_char (hd x) :: nat) \<le> 0x5A)"

definition lower_name :: "string \<Rightarrow> bool" where
  "lower_name x = (x \<noteq> [] \<and> 0x61 \<le> (of_char (hd x) :: nat) \<and> (of_char (hd x) :: nat) \<le> 0x7A)"

fun decl_ascii :: "decl \<Rightarrow> bool" where
  "decl_ascii (Intern g x) = ascii_initial x"
| "decl_ascii (TokenClass x) = ascii_initial x"
| "decl_ascii (ClassToken c y) = ascii_initial y"
| "decl_ascii (Compound c y) = ascii_initial y"

definition sym_ok :: "symbol \<Rightarrow> bool" where
  "sym_ok s = (upper_name (name s) \<and> typ_sym s = TERMINAL \<or> lower_name (name s) \<and> typ_sym s \<noteq> TERMINAL)"

definition table_ok :: "symtab \<Rightarrow> bool" where
  "table_ok tab =
     (tab \<noteq> [] \<and> name (hd tab) = ''$'' \<and> typ_sym (hd tab) = NONTERMINAL
      \<and> list_all sym_ok (tl tab) \<and> distinct (map name tab)
      \<and> list_all (\<lambda>s. list_all (\<lambda>c. list_ex (\<lambda>t. name t = c \<and> typ_sym t = TERMINAL) tab) (subsym s)) tab)"

definition numbered :: "symbol list \<Rightarrow> int \<Rightarrow> int \<Rightarrow> bool" where
  "numbered syms ns nt =
     (1 \<le> nt \<and> nt \<le> ns \<and> ns < int (length syms)
      \<and> (\<forall>i < length syms. index (syms ! i) = int i)
      \<and> name (syms ! 0) = ''$''
      \<and> name (syms ! nat ns) = ''{default}''
      \<and> (\<forall>i < length syms. typ_sym (syms ! i) = TERMINAL \<longleftrightarrow> 1 \<le> int i \<and> int i < nt)
      \<and> (\<forall>i < length syms. typ_sym (syms ! i) = MULTITERMINAL \<longleftrightarrow> ns < int i)
      \<and> (\<forall>i < length syms. \<forall>c \<in> set (subsym (syms ! i)).
            \<exists>j. 1 \<le> int j \<and> int j < nt \<and> name (syms ! j) = c))"

definition core :: "symbol \<Rightarrow> string \<times> symbol_type \<times> string list" where
  "core s = (name s, typ_sym s, subsym s)"

definition sc :: "string \<times> symbol_type \<times> string list \<Rightarrow> int" where
  "sc c = (case c of (n, t, _) \<Rightarrow>
     if t = MULTITERMINAL then 3 else if n \<noteq> [] \<and> of_char (hd n) > (of_char CHR ''Z'' :: nat) then 2 else 1)"

definition kok :: "string \<times> symbol_type \<times> string list \<Rightarrow> bool" where
  "kok c = (case c of (n, t, _) \<Rightarrow> upper_name n \<and> t = TERMINAL \<or> lower_name n \<and> t \<noteq> TERMINAL)"


section \<open>Sets of terminal indices\<close>

text \<open>
  A set is a Go map \<^verbatim>\<open>map[int]bool\<close>: a partial function from keys to booleans. Reading a
  key that is absent gives \<^verbatim>\<open>false\<close>. The order in which \<^verbatim>\<open>range\<close> visits the keys of a map
  is not fixed by the language: \<open>SetUnion\<close> takes it as its first argument, a list of the
  keys of \<open>s2\<close>.
\<close>

type_synonym intset = "int \<rightharpoonup> bool"

definition SetNew :: intset where
  "SetNew = Map.empty"

definition SetFind :: "intset \<Rightarrow> int \<Rightarrow> bool" where
  "SetFind s e = (case s e of None \<Rightarrow> False | Some v \<Rightarrow> v)"

definition SetAdd :: "intset \<Rightarrow> int \<Rightarrow> intset \<times> bool" where
  "SetAdd s e = (s(e \<mapsto> True), s e = None)"

fun SetUnion_range :: "int list \<Rightarrow> intset \<Rightarrow> intset \<Rightarrow> bool \<Rightarrow> intset \<times> bool" where
  "SetUnion_range [] s1 s2 progress = (s1, progress)"
| "SetUnion_range (k # ks) s1 s2 progress =
     (if \<not> SetFind s2 k then SetUnion_range ks s1 s2 progress
      else if \<not> SetFind s1 k then SetUnion_range ks (s1(k \<mapsto> True)) s2 True
      else SetUnion_range ks s1 s2 progress)"

definition SetUnion :: "int list \<Rightarrow> intset \<Rightarrow> intset \<Rightarrow> intset \<times> bool" where
  "SetUnion order s1 s2 = SetUnion_range order s1 s2 False"


section \<open>Properties of the action table\<close>

lemma slice_get_in [simp]: "0 \<le> i \<Longrightarrow> i < int (length s) \<Longrightarrow> slice_get s i = Inr (s ! nat i)"
  by (simp add: slice_get_def)

lemma slice_set_in [simp]: "0 \<le> i \<Longrightarrow> i < int (length s) \<Longrightarrow> slice_set s i v = Inr (s[nat i := v])"
  by (simp add: slice_set_def)

lemma fill_empty_replicate:
  "fill_empty (a @ replicate c empty_entry @ replicate d zero_entry)
      (int (length a + c)) (int (length a + c + d))
   = Inr (a @ replicate (c + d) empty_entry)"
proof (induction d arbitrary: c)
  case 0
  show ?case by (subst fill_empty.simps) simp
next
  case (Suc d)
  have upd: "(a @ replicate c empty_entry @ replicate (Suc d) zero_entry)[length a + c := empty_entry]
      = a @ replicate (Suc c) empty_entry @ replicate d zero_entry"
    by (simp add: list_update_append replicate_append_same)
  have "fill_empty (a @ replicate c empty_entry @ replicate (Suc d) zero_entry)
      (int (length a + c)) (int (length a + c + Suc d))
    = fill_empty (a @ replicate (Suc c) empty_entry @ replicate d zero_entry)
      (int (length a + Suc c)) (int (length a + Suc c + d))"
    apply (subst fill_empty.simps)
    using upd by (simp add: nat_add_distrib add.commute)
  also have "\<dots> = Inr (a @ replicate (Suc c + d) empty_entry)"
    by (rule Suc.IH)
  finally show ?case by simp
qed

lemma grow_ok:
  assumes "acttab_ok p"
  shows "\<exists>m. grow p = Inr (p\<lparr>nActionAlloc := nActionAlloc p + int m,
                              aAction := aAction p @ replicate m empty_entry\<rparr>)
            \<and> nAction p + nsymbol p + 1 < nActionAlloc p + int m"
proof (cases "nAction p + (nsymbol p + 1) \<ge> nActionAlloc p")
  case False
  then have "grow p = Inr p" by (simp add: grow_def Let_def)
  then show ?thesis using False by (intro exI[of _ 0]) simp
next
  case True
  define m where "m = nat (nAction p + (nsymbol p + 1) + 20)"
  have len: "nActionAlloc p = int (length (aAction p))" and na: "0 \<le> nAction p" and ns: "0 \<le> nsymbol p"
    using assms by (auto simp: acttab_ok_def)
  have m: "int m = nAction p + (nsymbol p + 1) + 20" using na ns by (simp add: m_def)
  have "fill_empty (aAction p @ replicate 0 empty_entry @ replicate m zero_entry)
      (int (length (aAction p) + 0)) (int (length (aAction p) + 0 + m))
    = Inr (aAction p @ replicate (0 + m) empty_entry)"
    by (rule fill_empty_replicate)
  then have fe: "fill_empty (aAction p @ replicate m zero_entry)
      (int (length (aAction p))) (int (length (aAction p)) + int m)
    = Inr (aAction p @ replicate m empty_entry)" by simp
  have "grow p = Inr (p\<lparr>nActionAlloc := nActionAlloc p + int m,
                              aAction := aAction p @ replicate m empty_entry\<rparr>)"
    using True fe len m by (simp add: grow_def Let_def algebra_simps m_def)
  then show ?thesis using m na ns len by (intro exI[of _ m]) simp
qed

lemma match_row_result:
  assumes "nLookahead p \<le> int (length (aLookahead p))" "nAction p \<le> int (length (aAction p))"
    and "0 \<le> j"
  shows "\<exists>r. match_row p i j = Inr r \<and> j \<le> r
           \<and> (nLookahead p \<le> r \<longrightarrow> (\<forall>j'. j \<le> j' \<and> j' < nLookahead p \<longrightarrow> row_hit p i j'))"
  using assms
proof (induction p i j rule: match_row.induct)
  case (1 p i j)
  show ?case
  proof (cases "j < nLookahead p")
    case False
    then show ?thesis by (subst match_row.simps) auto
  next
    case True
    define a where "a = aLookahead p ! nat j"
    define k where "k = lookahead a - mnLookahead p + i"
    have ga: "slice_get (aLookahead p) j = Inr a"
      using True 1(2,4) by (simp add: a_def)
    show ?thesis
    proof (cases "k < 0 \<or> k \<ge> nAction p")
      case True
      then have "match_row p i j = Inr j"
        using \<open>j < nLookahead p\<close> ga by (subst match_row.simps) (simp add: k_def Let_def)
      then show ?thesis using \<open>j < nLookahead p\<close> by simp
    next
      case False
      define c where "c = aAction p ! nat k"
      have gc: "slice_get (aAction p) k = Inr c"
        using False 1(3) by (simp add: c_def)
      show ?thesis
      proof (cases "lookahead a = lookahead c \<and> action a = action c")
        case False
        then have "match_row p i j = Inr j"
          using \<open>j < nLookahead p\<close> ga gc \<open>\<not> (k < 0 \<or> k \<ge> nAction p)\<close>
          by (subst match_row.simps) (auto simp: k_def Let_def)
        then show ?thesis using \<open>j < nLookahead p\<close> by simp
      next
        case True
        then have eq: "c = a" by simp
        have step: "match_row p i j = match_row p i (j + 1)"
          using \<open>j < nLookahead p\<close> ga gc \<open>\<not> (k < 0 \<or> k \<ge> nAction p)\<close> True
          by (subst match_row.simps) (auto simp: k_def Let_def)
        have "\<exists>r. match_row p i (j + 1) = Inr r \<and> j + 1 \<le> r
           \<and> (nLookahead p \<le> r \<longrightarrow> (\<forall>j'. j + 1 \<le> j' \<and> j' < nLookahead p \<longrightarrow> row_hit p i j'))"
          using 1(1)[OF \<open>j < nLookahead p\<close> ga k_def[unfolded a_def, folded a_def] _ gc]
            \<open>\<not> (k < 0 \<or> k \<ge> nAction p)\<close> True 1(2,3,4) by (auto simp: k_def)
        then obtain r where r: "match_row p i (j + 1) = Inr r" "j + 1 \<le> r"
           "nLookahead p \<le> r \<longrightarrow> (\<forall>j'. j + 1 \<le> j' \<and> j' < nLookahead p \<longrightarrow> row_hit p i j')" by blast
        have hj: "row_hit p i j"
          using \<open>\<not> (k < 0 \<or> k \<ge> nAction p)\<close> eq
          by (simp add: row_hit_def Let_def a_def[symmetric] k_def[symmetric] c_def[symmetric])
        have "\<forall>j'. j \<le> j' \<and> j' < nLookahead p \<longrightarrow> row_hit p i j'" if "nLookahead p \<le> r"
        proof (intro allI impI)
          fix j' assume "j \<le> j' \<and> j' < nLookahead p"
          then show "row_hit p i j'" using r(3) that hj by (cases "j' = j") auto
        qed
        then show ?thesis using step r by auto
      qed
    qed
  qed
qed

lemma count_alias_result:
  assumes "nAction p \<le> int (length (aAction p))" "0 \<le> j"
  shows "\<exists>r. count_alias p i j n = Inr r"
  using assms
proof (induction p i j n rule: count_alias.induct)
  case (1 p i j n)
  show ?case
  proof (cases "j < nAction p")
    case False
    then show ?thesis by (subst count_alias.simps) simp
  next
    case True
    have g: "slice_get (aAction p) j = Inr (aAction p ! nat j)"
      using True 1(4,5) by simp
    show ?thesis
      using True g 1 by (subst count_alias.simps) auto
  qed
qed

lemma dedup_scan_result:
  assumes "nLookahead p \<le> int (length (aLookahead p))" "nAction p \<le> int (length (aAction p))"
    and "0 \<le> e" "i < nAction p"
  shows "\<exists>r. dedup_scan p e i = Inr r \<and> r \<le> i
           \<and> (e \<le> r \<longrightarrow> (\<forall>j'. 0 \<le> j' \<and> j' < nLookahead p \<longrightarrow> row_hit p r j'))"
  using assms
proof (induction p e i rule: dedup_scan.induct)
  case (1 p e i)
  show ?case
  proof (cases "i \<ge> e")
    case False
    then show ?thesis by (subst dedup_scan.simps) simp
  next
    case True
    define c where "c = aAction p ! nat i"
    have g: "slice_get (aAction p) i = Inr c"
      using True 1(6-8) by (simp add: c_def)
    obtain jm where jm: "match_row p i 0 = Inr jm"
      "nLookahead p \<le> jm \<longrightarrow> (\<forall>j'. 0 \<le> j' \<and> j' < nLookahead p \<longrightarrow> row_hit p i j')"
      using match_row_result[OF 1(5,6), of 0 i] by auto
    obtain n where n: "count_alias p i 0 0 = Inr n"
      using count_alias_result[OF 1(6), of 0 i 0] by auto
    have rec: "\<exists>r. dedup_scan p e (i - 1) = Inr r \<and> r \<le> i
           \<and> (e \<le> r \<longrightarrow> (\<forall>j'. 0 \<le> j' \<and> j' < nLookahead p \<longrightarrow> row_hit p r j'))"
      if "dedup_scan p e i = dedup_scan p e (i - 1)"
         "\<exists>r. dedup_scan p e (i - 1) = Inr r \<and> r \<le> i - 1
           \<and> (e \<le> r \<longrightarrow> (\<forall>j'. 0 \<le> j' \<and> j' < nLookahead p \<longrightarrow> row_hit p r j'))"
      using that by auto
    consider (a) "lookahead c \<noteq> mnLookahead p"
      | (b) "lookahead c = mnLookahead p" "action c \<noteq> mnAction p"
      | (c) "lookahead c = mnLookahead p" "action c = mnAction p" "jm < nLookahead p"
      | (d) "lookahead c = mnLookahead p" "action c = mnAction p" "\<not> jm < nLookahead p" "n \<noteq> nLookahead p"
      | (f) "lookahead c = mnLookahead p" "action c = mnAction p" "\<not> jm < nLookahead p" "n = nLookahead p"
      by blast
    then show ?thesis
    proof cases
      case a
      have s: "dedup_scan p e i = dedup_scan p e (i - 1)"
        using True g a by (subst dedup_scan.simps) simp
      have "\<exists>r. dedup_scan p e (i - 1) = Inr r \<and> r \<le> i - 1
           \<and> (e \<le> r \<longrightarrow> (\<forall>j'. 0 \<le> j' \<and> j' < nLookahead p \<longrightarrow> row_hit p r j'))"
        using 1(4)[OF True g] a 1(5-8) by simp
      then show ?thesis using s by auto
    next
      case b
      have s: "dedup_scan p e i = dedup_scan p e (i - 1)"
        using True g b by (subst dedup_scan.simps) simp
      have "\<exists>r. dedup_scan p e (i - 1) = Inr r \<and> r \<le> i - 1
           \<and> (e \<le> r \<longrightarrow> (\<forall>j'. 0 \<le> j' \<and> j' < nLookahead p \<longrightarrow> row_hit p r j'))"
        using 1(1)[OF True g] b 1(5-8) by simp
      then show ?thesis using s by auto
    next
      case c
      have s: "dedup_scan p e i = dedup_scan p e (i - 1)"
        using True g c jm(1) by (subst dedup_scan.simps) simp
      have "\<exists>r. dedup_scan p e (i - 1) = Inr r \<and> r \<le> i - 1
           \<and> (e \<le> r \<longrightarrow> (\<forall>j'. 0 \<le> j' \<and> j' < nLookahead p \<longrightarrow> row_hit p r j'))"
        using 1(2)[OF True g _ _ jm(1)] c 1(5-8) by simp
      then show ?thesis using s by auto
    next
      case d
      have s: "dedup_scan p e i = dedup_scan p e (i - 1)"
        using True g d jm(1) n by (subst dedup_scan.simps) simp
      have "\<exists>r. dedup_scan p e (i - 1) = Inr r \<and> r \<le> i - 1
           \<and> (e \<le> r \<longrightarrow> (\<forall>j'. 0 \<le> j' \<and> j' < nLookahead p \<longrightarrow> row_hit p r j'))"
        using 1(3)[OF True g _ _ jm(1) _ n] d 1(5-8) by simp
      then show ?thesis using s by auto
    next
      case f
      have s: "dedup_scan p e i = Inr i"
        using True g f jm(1) n by (subst dedup_scan.simps) simp
      then show ?thesis using jm(2) f by auto
    qed
  qed
qed

lemma hole_fits_result:
  assumes "nLookahead p \<le> int (length (aLookahead p))" "0 \<le> j"
    and "\<forall>j'. j \<le> j' \<and> j' < nLookahead p \<longrightarrow>
           lookahead (aLookahead p ! nat j') - mnLookahead p + i < int (length (aAction p))"
  shows "\<exists>r. hole_fits p i j = Inr r \<and> j \<le> r
           \<and> (nLookahead p \<le> r \<longrightarrow> (\<forall>j'. j \<le> j' \<and> j' < nLookahead p \<longrightarrow> row_free p i j'))
           \<and> ((\<forall>j'. j \<le> j' \<and> j' < nLookahead p \<longrightarrow> row_free p i j') \<longrightarrow> nLookahead p \<le> r)"
  using assms
proof (induction p i j rule: hole_fits.induct)
  case (1 p i j)
  show ?case
  proof (cases "j < nLookahead p")
    case False
    then show ?thesis by (subst hole_fits.simps) auto
  next
    case True
    define a where "a = aLookahead p ! nat j"
    define k where "k = lookahead a - mnLookahead p + i"
    have ga: "slice_get (aLookahead p) j = Inr a"
      using True 1(2,3) by (simp add: a_def)
    have kub: "k < int (length (aAction p))"
      using 1(4) True by (auto simp: k_def a_def)
    show ?thesis
    proof (cases "k < 0")
      case True
      have "hole_fits p i j = Inr j"
        using \<open>j < nLookahead p\<close> ga True by (subst hole_fits.simps) (simp add: k_def Let_def)
      moreover have "\<not> row_free p i j"
        using True by (simp add: row_free_def Let_def a_def[symmetric] k_def[symmetric])
      ultimately show ?thesis using \<open>j < nLookahead p\<close> by auto
    next
      case False
      define c where "c = aAction p ! nat k"
      have gc: "slice_get (aAction p) k = Inr c"
        using False kub by (simp add: c_def)
      show ?thesis
      proof (cases "lookahead c \<ge> 0")
        case True
        have "hole_fits p i j = Inr j"
          using \<open>j < nLookahead p\<close> ga gc \<open>\<not> k < 0\<close> True
          by (subst hole_fits.simps) (simp add: k_def Let_def)
        moreover have "\<not> row_free p i j"
          using True by (simp add: row_free_def Let_def a_def[symmetric] k_def[symmetric] c_def[symmetric])
        ultimately show ?thesis using \<open>j < nLookahead p\<close> by auto
      next
        case neg: False
        have step: "hole_fits p i j = hole_fits p i (j + 1)"
          using \<open>j < nLookahead p\<close> ga gc \<open>\<not> k < 0\<close> neg
          by (subst hole_fits.simps) (simp add: k_def Let_def)
        have fj: "row_free p i j"
          using neg \<open>\<not> k < 0\<close>
          by (simp add: row_free_def Let_def a_def[symmetric] k_def[symmetric] c_def[symmetric])
        have "\<exists>r. hole_fits p i (j + 1) = Inr r \<and> j + 1 \<le> r
           \<and> (nLookahead p \<le> r \<longrightarrow> (\<forall>j'. j + 1 \<le> j' \<and> j' < nLookahead p \<longrightarrow> row_free p i j'))
           \<and> ((\<forall>j'. j + 1 \<le> j' \<and> j' < nLookahead p \<longrightarrow> row_free p i j') \<longrightarrow> nLookahead p \<le> r)"
          using 1(1)[OF \<open>j < nLookahead p\<close> ga k_def[unfolded a_def, folded a_def] _ gc]
            \<open>\<not> k < 0\<close> neg 1(2,3,4) by (auto simp: k_def)
        then obtain r where r: "hole_fits p i (j + 1) = Inr r" "j + 1 \<le> r"
           "nLookahead p \<le> r \<longrightarrow> (\<forall>j'. j + 1 \<le> j' \<and> j' < nLookahead p \<longrightarrow> row_free p i j')"
           "(\<forall>j'. j + 1 \<le> j' \<and> j' < nLookahead p \<longrightarrow> row_free p i j') \<longrightarrow> nLookahead p \<le> r"
          by blast
        have "\<forall>j'. j \<le> j' \<and> j' < nLookahead p \<longrightarrow> row_free p i j'" if "nLookahead p \<le> r"
        proof (intro allI impI)
          fix j' assume "j \<le> j' \<and> j' < nLookahead p"
          then show "row_free p i j'" using r(3) that fj by (cases "j' = j") auto
        qed
        moreover have "nLookahead p \<le> r" if "\<forall>j'. j \<le> j' \<and> j' < nLookahead p \<longrightarrow> row_free p i j'"
          using r(4) that by auto
        ultimately show ?thesis using step r(1,2) by auto
      qed
    qed
  qed
qed

lemma alias_free_result:
  assumes "nAction p \<le> int (length (aAction p))" "0 \<le> j"
  shows "\<exists>r. alias_free p i j = Inr r
           \<and> (j \<le> nAction p \<longrightarrow>
                (r = nAction p \<longleftrightarrow>
                   (\<forall>j'. j \<le> j' \<and> j' < nAction p \<longrightarrow>
                      lookahead (aAction p ! nat j') \<noteq> j' + mnLookahead p - i)))"
  using assms
proof (induction p i j rule: alias_free.induct)
  case (1 p i j)
  show ?case
  proof (cases "j < nAction p")
    case False
    then show ?thesis by (subst alias_free.simps) auto
  next
    case True
    define c where "c = aAction p ! nat j"
    have g: "slice_get (aAction p) j = Inr c"
      using True 1(2,3) by (simp add: c_def)
    show ?thesis
    proof (cases "lookahead c = j + mnLookahead p - i")
      case eq: True
      have "alias_free p i j = Inr j"
        using True g eq by (subst alias_free.simps) simp
      then show ?thesis using True eq by (auto simp: c_def)
    next
      case ne: False
      have step: "alias_free p i j = alias_free p i (j + 1)"
        using True g ne by (subst alias_free.simps) simp
      have "\<exists>r. alias_free p i (j + 1) = Inr r
           \<and> (j + 1 \<le> nAction p \<longrightarrow>
                (r = nAction p \<longleftrightarrow>
                   (\<forall>j'. j + 1 \<le> j' \<and> j' < nAction p \<longrightarrow>
                      lookahead (aAction p ! nat j') \<noteq> j' + mnLookahead p - i)))"
        using 1(1)[OF True g ne] 1(2,3) by simp
      then obtain r where r: "alias_free p i (j + 1) = Inr r"
        "r = nAction p \<longleftrightarrow>
                   (\<forall>j'. j + 1 \<le> j' \<and> j' < nAction p \<longrightarrow>
                      lookahead (aAction p ! nat j') \<noteq> j' + mnLookahead p - i)"
        using True by auto
      have "(\<forall>j'. j + 1 \<le> j' \<and> j' < nAction p \<longrightarrow>
                      lookahead (aAction p ! nat j') \<noteq> j' + mnLookahead p - i)
         \<longleftrightarrow> (\<forall>j'. j \<le> j' \<and> j' < nAction p \<longrightarrow>
                      lookahead (aAction p ! nat j') \<noteq> j' + mnLookahead p - i)" (is "?L \<longleftrightarrow> ?R")
      proof
        assume l: ?L
        show ?R
        proof (intro allI impI)
          fix j' assume "j \<le> j' \<and> j' < nAction p"
          then show "lookahead (aAction p ! nat j') \<noteq> j' + mnLookahead p - i"
            using l ne by (cases "j' = j") (auto simp: c_def)
        qed
      next
        assume ?R then show ?L by auto
      qed
      then show ?thesis using step r by simp
    qed
  qed
qed

lemma hole_scan_result:
  assumes "nLookahead p \<le> int (length (aLookahead p))" "nAction p \<le> int (length (aAction p))"
    and "nActionAlloc p = int (length (aAction p))" "0 \<le> nAction p"
    and "0 \<le> i" "0 \<le> mnLookahead p" "0 \<le> mxLookahead p"
    and "\<forall>j'. 0 \<le> j' \<and> j' < nLookahead p \<longrightarrow> lookahead (aLookahead p ! nat j') \<le> mxLookahead p"
  shows "\<exists>r. hole_scan p i = Inr r \<and> i \<le> r
           \<and> (r < nActionAlloc p - mxLookahead p \<longrightarrow> slot_accepts p r)
           \<and> (nActionAlloc p - mxLookahead p \<le> r \<longrightarrow> r = max i (nActionAlloc p - mxLookahead p))
           \<and> (\<forall>c. i \<le> c \<and> c < nActionAlloc p - mxLookahead p \<and> slot_accepts p c \<longrightarrow> r \<le> c)"
  using assms
proof (induction p i rule: hole_scan.induct)
  case (1 p i)
  let ?b = "nActionAlloc p - mxLookahead p"
  show ?case
  proof (cases "i < ?b")
    case False
    then show ?thesis by (subst hole_scan.simps) auto
  next
    case True
    define c where "c = aAction p ! nat i"
    have g: "slice_get (aAction p) i = Inr c"
      using True 1(6,8,10) by (simp add: c_def)
    have ub: "\<forall>j'. 0 \<le> j' \<and> j' < nLookahead p \<longrightarrow>
           lookahead (aLookahead p ! nat j') - mnLookahead p + i < int (length (aAction p))"
    proof (intro allI impI)
      fix j' assume "0 \<le> j' \<and> j' < nLookahead p"
      then have "lookahead (aLookahead p ! nat j') \<le> mxLookahead p" using 1(11) by blast
      then show "lookahead (aLookahead p ! nat j') - mnLookahead p + i < int (length (aAction p))"
        using True 1(6,9) by linarith
    qed
    obtain jf where jf: "hole_fits p i 0 = Inr jf"
       "nLookahead p \<le> jf \<longrightarrow> (\<forall>j'. 0 \<le> j' \<and> j' < nLookahead p \<longrightarrow> row_free p i j')"
       "(\<forall>j'. 0 \<le> j' \<and> j' < nLookahead p \<longrightarrow> row_free p i j') \<longrightarrow> nLookahead p \<le> jf"
      using hole_fits_result[OF 1(4) _ ub] by auto
    obtain ja where ja: "alias_free p i 0 = Inr ja"
       "ja = nAction p \<longleftrightarrow> (\<forall>j'. 0 \<le> j' \<and> j' < nAction p \<longrightarrow>
                  lookahead (aAction p ! nat j') \<noteq> j' + mnLookahead p - i)"
      using alias_free_result[OF 1(5), of 0 i] 1(7) by auto
    have notacc: "\<not> slot_accepts p i"
      if "lookahead c \<ge> 0 \<or> jf < nLookahead p \<or> ja \<noteq> nAction p"
      using that jf(3) ja(2) by (auto simp: slot_accepts_def c_def)
    have recur: ?thesis
      if s: "hole_scan p i = hole_scan p (i + 1)"
      and na: "\<not> slot_accepts p i"
      and ih: "\<exists>r. hole_scan p (i + 1) = Inr r \<and> i + 1 \<le> r
           \<and> (r < ?b \<longrightarrow> slot_accepts p r)
           \<and> (?b \<le> r \<longrightarrow> r = max (i + 1) ?b)
           \<and> (\<forall>c. i + 1 \<le> c \<and> c < ?b \<and> slot_accepts p c \<longrightarrow> r \<le> c)"
    proof -
      from ih obtain r where r: "hole_scan p (i + 1) = Inr r" "i + 1 \<le> r"
          "r < ?b \<longrightarrow> slot_accepts p r" "?b \<le> r \<longrightarrow> r = max (i + 1) ?b"
          "\<forall>c. i + 1 \<le> c \<and> c < ?b \<and> slot_accepts p c \<longrightarrow> r \<le> c" by blast
      have "r \<le> c'" if "i \<le> c' \<and> c' < ?b \<and> slot_accepts p c'" for c'
      proof -
        have "c' \<noteq> i" using that na by auto
        then show ?thesis using r(5) that by auto
      qed
      moreover have "?b \<le> r \<longrightarrow> r = max i ?b" using r(4) True by auto
      ultimately show ?thesis using s r(1,2,3) by auto
    qed
    consider (a) "lookahead c \<ge> 0"
      | (b) "lookahead c < 0" "jf < nLookahead p"
      | (d) "lookahead c < 0" "\<not> jf < nLookahead p" "ja \<noteq> nAction p"
      | (f) "lookahead c < 0" "\<not> jf < nLookahead p" "ja = nAction p"
      by linarith
    then show ?thesis
    proof cases
      case a
      have s: "hole_scan p i = hole_scan p (i + 1)"
        using True g a by (subst hole_scan.simps) simp
      show ?thesis
        by (rule recur[OF s notacc]) (use a 1(3)[OF True g] 1(4-11) in auto)
    next
      case b
      have s: "hole_scan p i = hole_scan p (i + 1)"
        using True g b jf(1) by (subst hole_scan.simps) simp
      show ?thesis
        by (rule recur[OF s notacc]) (use b 1(1)[OF True g _ jf(1)] 1(4-11) in auto)
    next
      case d
      have s: "hole_scan p i = hole_scan p (i + 1)"
        using True g d jf(1) ja(1) by (subst hole_scan.simps) simp
      show ?thesis
        by (rule recur[OF s notacc]) (use d 1(2)[OF True g _ jf(1) _ ja(1)] 1(4-11) in auto)
    next
      case f
      have s: "hole_scan p i = Inr i"
        using True g f jf(1) ja(1) by (subst hole_scan.simps) simp
      have fr: "\<forall>j'. 0 \<le> j' \<and> j' < nLookahead p \<longrightarrow> row_free p i j'" using jf(2) f by auto
      have al: "\<forall>j'. 0 \<le> j' \<and> j' < nAction p \<longrightarrow>
         lookahead (aAction p ! nat j') \<noteq> j' + mnLookahead p - i"
        using ja(2) f by auto
      have "slot_accepts p i" using f fr al by (simp add: slot_accepts_def c_def)
      then show ?thesis using s True by auto
    qed
  qed
qed

lemma install_result:
  assumes "nLookahead p \<le> int (length (aLookahead p))" "0 \<le> j"
    and "\<forall>j'. j \<le> j' \<and> j' < nLookahead p \<longrightarrow>
           0 \<le> row_slot p i j' \<and> row_slot p i j' < int (length (aAction p))"
  shows "\<exists>s n. install p i j = Inr (p\<lparr>aAction := s, nAction := n\<rparr>)
    \<and> length s = length (aAction p) \<and> nAction p \<le> n
    \<and> (\<forall>j'. j \<le> j' \<and> j' < nLookahead p \<longrightarrow> row_slot p i j' < n)
    \<and> (\<forall>k < length s. s ! k = aAction p ! k
          \<or> (\<exists>j'. j \<le> j' \<and> j' < nLookahead p \<and> int k = row_slot p i j' \<and> s ! k = aLookahead p ! nat j'))
    \<and> (\<forall>j'. j \<le> j' \<and> j' < nLookahead p
          \<and> (\<forall>j''. j' < j'' \<and> j'' < nLookahead p \<longrightarrow>
                lookahead (aLookahead p ! nat j'') \<noteq> lookahead (aLookahead p ! nat j'))
          \<longrightarrow> s ! nat (row_slot p i j') = aLookahead p ! nat j')"
  using assms
proof (induction p i j rule: install.induct)
  case (1 p i j)
  show ?case
  proof (cases "j < nLookahead p")
    case False
    then have "install p i j = Inr p" by (subst install.simps) simp
    then have "install p i j = Inr (p\<lparr>aAction := aAction p, nAction := nAction p\<rparr>)" by simp
    then show ?thesis using False by (intro exI[of _ "aAction p"] exI[of _ "nAction p"]) auto
  next
    case True
    define a where "a = aLookahead p ! nat j"
    define k where "k = lookahead a - mnLookahead p + i"
    have ksl: "k = row_slot p i j" by (simp add: k_def a_def row_slot_def)
    have ga: "slice_get (aLookahead p) j = Inr a"
      using True 1(2,3) by (simp add: a_def)
    have kb: "0 \<le> k" "k < int (length (aAction p))"
      using 1(4) True ksl by auto
    define s1 where "s1 = (aAction p)[nat k := a]"
    define n1 where "n1 = (if k \<ge> nAction p then k + 1 else nAction p)"
    define p1 where "p1 = p\<lparr>aAction := s1, nAction := n1\<rparr>"
    have gs: "slice_set (aAction p) k a = Inr s1"
      using kb by (simp add: s1_def)
    have step: "install p i j = install p1 i (j + 1)"
      using True ga gs by (subst install.simps[of p i j]) (simp add: k_def Let_def p1_def n1_def)
    have sl1: "row_slot p1 i j' = row_slot p i j'" for j' by (simp add: row_slot_def p1_def)
    have "\<exists>s n. install p1 i (j + 1) = Inr (p1\<lparr>aAction := s, nAction := n\<rparr>)
      \<and> length s = length (aAction p1) \<and> nAction p1 \<le> n
      \<and> (\<forall>j'. j + 1 \<le> j' \<and> j' < nLookahead p1 \<longrightarrow> row_slot p1 i j' < n)
      \<and> (\<forall>k < length s. s ! k = aAction p1 ! k
          \<or> (\<exists>j'. j + 1 \<le> j' \<and> j' < nLookahead p1 \<and> int k = row_slot p1 i j' \<and> s ! k = aLookahead p1 ! nat j'))
      \<and> (\<forall>j'. j + 1 \<le> j' \<and> j' < nLookahead p1
          \<and> (\<forall>j''. j' < j'' \<and> j'' < nLookahead p1 \<longrightarrow>
                lookahead (aLookahead p1 ! nat j'') \<noteq> lookahead (aLookahead p1 ! nat j'))
          \<longrightarrow> s ! nat (row_slot p1 i j') = aLookahead p1 ! nat j')"
    proof (rule 1(1)[OF True ga k_def[unfolded a_def, folded a_def] gs, folded n1_def p1_def])
      show "nLookahead p1 \<le> int (length (aLookahead p1))" using 1(2) by (simp add: p1_def)
      show "0 \<le> j + 1" using 1(3) by simp
      show "\<forall>j'. j + 1 \<le> j' \<and> j' < nLookahead p1 \<longrightarrow>
         0 \<le> row_slot p1 i j' \<and> row_slot p1 i j' < int (length (aAction p1))"
        using 1(4) by (simp add: sl1) (simp add: p1_def s1_def)
    qed
    then obtain s n where sn:
      "install p1 i (j + 1) = Inr (p1\<lparr>aAction := s, nAction := n\<rparr>)"
      "length s = length (aAction p)" "n1 \<le> n"
      "\<forall>j'. j + 1 \<le> j' \<and> j' < nLookahead p \<longrightarrow> row_slot p i j' < n"
      "\<forall>k < length s. s ! k = s1 ! k
          \<or> (\<exists>j'. j + 1 \<le> j' \<and> j' < nLookahead p \<and> int k = row_slot p i j' \<and> s ! k = aLookahead p ! nat j')"
      "\<forall>j'. j + 1 \<le> j' \<and> j' < nLookahead p
          \<and> (\<forall>j''. j' < j'' \<and> j'' < nLookahead p \<longrightarrow>
                lookahead (aLookahead p ! nat j'') \<noteq> lookahead (aLookahead p ! nat j'))
          \<longrightarrow> s ! nat (row_slot p i j') = aLookahead p ! nat j'"
      by (auto simp: sl1) (auto simp: p1_def s1_def)
    have e1: "install p i j = Inr (p\<lparr>aAction := s, nAction := n\<rparr>)"
      using step sn(1) by (simp add: p1_def)
    have e2: "nAction p \<le> n" using sn(3) by (simp add: n1_def split: if_splits)
    have e3: "\<forall>j'. j \<le> j' \<and> j' < nLookahead p \<longrightarrow> row_slot p i j' < n"
    proof (intro allI impI)
      fix j' assume h: "j \<le> j' \<and> j' < nLookahead p"
      show "row_slot p i j' < n"
      proof (cases "j' = j")
        case True
        then show ?thesis using sn(3) ksl by (simp add: n1_def split: if_splits)
      next
        case False
        then show ?thesis using sn(4) h by auto
      qed
    qed
    have e4: "\<forall>k' < length s. s ! k' = aAction p ! k'
          \<or> (\<exists>j'. j \<le> j' \<and> j' < nLookahead p \<and> int k' = row_slot p i j' \<and> s ! k' = aLookahead p ! nat j')"
    proof (intro allI impI)
      fix k' assume kl: "k' < length s"
      from sn(5) kl consider (u) "s ! k' = s1 ! k'"
        | (w) j' where "j + 1 \<le> j'" "j' < nLookahead p" "int k' = row_slot p i j'"
                  "s ! k' = aLookahead p ! nat j'"
        by blast
      then show "s ! k' = aAction p ! k'
          \<or> (\<exists>j'. j \<le> j' \<and> j' < nLookahead p \<and> int k' = row_slot p i j' \<and> s ! k' = aLookahead p ! nat j')"
      proof cases
        case u
        show ?thesis
        proof (cases "k' = nat k")
          case True
          then have "s ! k' = a" using u kl sn(2) by (simp add: s1_def)
          moreover have "int k' = row_slot p i j" using True kb ksl by simp
          ultimately show ?thesis using \<open>j < nLookahead p\<close> a_def by auto
        next
          case False
          then show ?thesis using u by (simp add: s1_def)
        qed
      next
        case w
        then show ?thesis by (intro disjI2 exI[of _ j']) auto
      qed
    qed
    have e5: "\<forall>j'. j \<le> j' \<and> j' < nLookahead p
          \<and> (\<forall>j''. j' < j'' \<and> j'' < nLookahead p \<longrightarrow>
                lookahead (aLookahead p ! nat j'') \<noteq> lookahead (aLookahead p ! nat j'))
          \<longrightarrow> s ! nat (row_slot p i j') = aLookahead p ! nat j'"
    proof (intro allI impI)
      fix j' assume h: "j \<le> j' \<and> j' < nLookahead p
          \<and> (\<forall>j''. j' < j'' \<and> j'' < nLookahead p \<longrightarrow>
                lookahead (aLookahead p ! nat j'') \<noteq> lookahead (aLookahead p ! nat j'))"
      show "s ! nat (row_slot p i j') = aLookahead p ! nat j'"
      proof (cases "j' = j")
        case False
        then show ?thesis using sn(6) h by auto
      next
        case True
        have kl: "nat k < length s" using kb sn(2) by simp
        from sn(5) kl consider (u) "s ! nat k = s1 ! nat k"
          | (w) j2 where "j + 1 \<le> j2" "j2 < nLookahead p" "int (nat k) = row_slot p i j2"
          by blast
        then show ?thesis
        proof cases
          case u
          then show ?thesis using True kb ksl by (simp add: s1_def a_def)
        next
          case w
          then have "row_slot p i j2 = row_slot p i j" using kb ksl by simp
          then have "lookahead (aLookahead p ! nat j2) = lookahead (aLookahead p ! nat j)"
            by (simp add: row_slot_def)
          then show ?thesis using h True w(1,2) by auto
        qed
      qed
    qed
    show ?thesis
      using e1 sn(2) e2 e3 e4 e5 by blast
  qed
qed

lemma pending_nth:
  assumes "nLookahead p \<le> int (length (aLookahead p))" "0 \<le> j" "j < nLookahead p"
  shows "aLookahead p ! nat j \<in> set (pending p)"
proof -
  have "nat j < length (pending p)" using assms by (simp add: pending_def)
  moreover have "pending p ! nat j = aLookahead p ! nat j" using assms by (simp add: pending_def)
  ultimately show ?thesis by (metis nth_mem)
qed

lemma grow_props:
  assumes ok: "acttab_ok p0"
  shows "\<exists>m. grow p0 = Inr (p0\<lparr>nActionAlloc := nActionAlloc p0 + int m,
                              aAction := aAction p0 @ replicate m empty_entry\<rparr>)
      \<and> acttab_ok (p0\<lparr>nActionAlloc := nActionAlloc p0 + int m,
                              aAction := aAction p0 @ replicate m empty_entry\<rparr>)
      \<and> has_room (p0\<lparr>nActionAlloc := nActionAlloc p0 + int m,
                              aAction := aAction p0 @ replicate m empty_entry\<rparr>)"
proof -
  obtain m where m: "grow p0 = Inr (p0\<lparr>nActionAlloc := nActionAlloc p0 + int m,
                              aAction := aAction p0 @ replicate m empty_entry\<rparr>)"
     "nAction p0 + nsymbol p0 + 1 < nActionAlloc p0 + int m"
    using grow_ok[OF ok] by blast
  have "acttab_ok (p0\<lparr>nActionAlloc := nActionAlloc p0 + int m,
                              aAction := aAction p0 @ replicate m empty_entry\<rparr>)"
    using ok by (auto simp: acttab_ok_def nth_append empty_entry_def)
  then show ?thesis using m by (auto simp: has_room_def)
qed

lemma find_slot_result:
  assumes ok: "acttab_ok p" and row: "row_ok p" and rm: "has_room p"
  shows "\<exists>i. find_slot p safe = Inr i \<and> (if safe then mnLookahead p else 0) \<le> i
     \<and> (\<forall>j. 0 \<le> j \<and> j < nLookahead p \<longrightarrow>
            0 \<le> row_slot p i j \<and> row_slot p i j < int (length (aAction p)))
     \<and> ((\<forall>j. 0 \<le> j \<and> j < nLookahead p \<longrightarrow> row_hit p i j)
         \<or> (\<forall>j. 0 \<le> j \<and> j < nLookahead p \<longrightarrow> lookahead (aAction p ! nat (row_slot p i j)) < 0))
     \<and> (\<forall>t. t < nsymbol p \<longrightarrow> i - mnLookahead p + t < int (length (aAction p)))"
proof -
  define e where "e = (if safe then mnLookahead p else 0)"
  have len: "nActionAlloc p = int (length (aAction p))" and na: "0 \<le> nAction p"
    and ns: "0 \<le> nsymbol p"
    and emp: "\<forall>k. nat (nAction p) \<le> k \<and> k < length (aAction p) \<longrightarrow> aAction p ! k = empty_entry"
    and lb: "\<forall>k < length (aAction p). - 1 \<le> lookahead (aAction p ! k)"
    and nl: "nLookahead p \<le> int (length (aLookahead p))"
    using ok by (auto simp: acttab_ok_def)
  have npos: "0 < nLookahead p" and mn: "0 \<le> mnLookahead p" and mx: "mxLookahead p < nsymbol p"
    and bnd: "\<forall>a \<in> set (pending p). mnLookahead p \<le> lookahead a \<and> lookahead a \<le> mxLookahead p"
    using row by (auto simp: row_ok_def)
  have rm': "nAction p + nsymbol p + 1 < int (length (aAction p))" using rm len by (simp add: has_room_def)
  have ent: "mnLookahead p \<le> lookahead (aLookahead p ! nat j)
       \<and> lookahead (aLookahead p ! nat j) \<le> mxLookahead p" if "0 \<le> j" "j < nLookahead p" for j
    using bnd pending_nth[OF nl that] by blast
  have mx0: "0 \<le> mxLookahead p" using ent[of 0] npos mn by linarith
  have empi: "aAction p ! nat k = empty_entry" if "nAction p \<le> k" "k < int (length (aAction p))" for k
  proof -
    have "nat (nAction p) \<le> nat k \<and> nat k < length (aAction p)" using that na by linarith
    then show ?thesis using emp by blast
  qed
  have e0: "0 \<le> e" using mn by (simp add: e_def)
  have nal: "nAction p \<le> int (length (aAction p))" using rm' ns by linarith
  obtain i1 where i1: "dedup_scan p e (nAction p - 1) = Inr i1" "i1 \<le> nAction p - 1"
     "e \<le> i1 \<longrightarrow> (\<forall>j'. 0 \<le> j' \<and> j' < nLookahead p \<longrightarrow> row_hit p i1 j')"
    using dedup_scan_result[OF nl nal e0, of "nAction p - 1"] by auto
  show ?thesis
  proof (cases "i1 < e")
    case False
    have fs: "find_slot p safe = Inr i1"
      using i1(1) False by (simp add: find_slot_def e_def Let_def)
    have hits: "\<forall>j'. 0 \<le> j' \<and> j' < nLookahead p \<longrightarrow> row_hit p i1 j'" using i1(3) False by auto
    have "0 \<le> row_slot p i1 j \<and> row_slot p i1 j < int (length (aAction p))"
      if "0 \<le> j \<and> j < nLookahead p" for j
      using hits that nal by (auto simp: row_hit_def row_slot_def Let_def)
    moreover have "i1 - mnLookahead p + t < int (length (aAction p))" if "t < nsymbol p" for t
      using that i1(2) mn rm' by linarith
    ultimately show ?thesis using fs hits False by (auto simp: e_def)
  next
    case True
    have ub: "\<forall>j'. 0 \<le> j' \<and> j' < nLookahead p \<longrightarrow> lookahead (aLookahead p ! nat j') \<le> mxLookahead p"
      using ent by blast
    let ?b = "nActionAlloc p - mxLookahead p"
    obtain r where r: "hole_scan p e = Inr r" "e \<le> r"
       "r < ?b \<longrightarrow> slot_accepts p r" "?b \<le> r \<longrightarrow> r = max e ?b"
       "\<forall>c. e \<le> c \<and> c < ?b \<and> slot_accepts p c \<longrightarrow> r \<le> c"
      using hole_scan_result[OF nl nal len na e0 mn mx0 ub] by blast
    have fs: "find_slot p safe = Inr r"
      using i1(1) True r(1) by (simp add: find_slot_def e_def Let_def)
    have bgt: "nAction p + 2 < ?b" using rm' mx len by linarith
    have ebound: "e \<le> mnLookahead p" using mn by (simp add: e_def)
    define c where "c = nAction p + mnLookahead p + 1"
    have cand: "r \<le> c" if c2: "c < ?b"
    proof -
      have c1: "e \<le> c" using ebound na by (simp add: c_def)
      have cl: "c < int (length (aAction p))" using c2 mx0 len by linarith
      have "aAction p ! nat c = empty_entry"
        using empi[of c] cl mn by (simp add: c_def)
      then have a1: "lookahead (aAction p ! nat c) < 0" by (simp add: empty_entry_def)
      have a2: "row_free p c j'" if "0 \<le> j' \<and> j' < nLookahead p" for j'
      proof -
        define k where "k = lookahead (aLookahead p ! nat j') - mnLookahead p + c"
        have "nAction p \<le> k" using ent[of j'] that mn by (simp add: k_def c_def)
        moreover have "k < int (length (aAction p))"
          using ent[of j'] that c2 mn len by (simp add: k_def)
        ultimately have "aAction p ! nat k = empty_entry" using empi by blast
        then show ?thesis using \<open>nAction p \<le> k\<close> na
          by (simp add: row_free_def Let_def k_def[symmetric] empty_entry_def)
      qed
      have a3: "lookahead (aAction p ! nat j') \<noteq> j' + mnLookahead p - c"
        if "0 \<le> j' \<and> j' < nAction p" for j'
      proof -
        have "nat j' < length (aAction p)" using that nal by auto
        then have "- 1 \<le> lookahead (aAction p ! nat j')" using lb by blast
        then show ?thesis using that by (simp add: c_def)
      qed
      have "slot_accepts p c" using a1 a2 a3 by (simp add: slot_accepts_def)
      then show ?thesis using r(5) c1 c2 by blast
    qed
    have wide: "nsymbol p < mnLookahead p + mxLookahead p" if "\<not> c < ?b"
      using that rm' len by (simp add: c_def)
    have sl: "0 \<le> row_slot p r j \<and> row_slot p r j < int (length (aAction p))
            \<and> lookahead (aAction p ! nat (row_slot p r j)) < 0"
      if j: "0 \<le> j \<and> j < nLookahead p" for j
    proof (cases "r < ?b")
      case True
      then have "row_free p r j" using r(3) j by (auto simp: slot_accepts_def)
      then have "0 \<le> row_slot p r j" "lookahead (aAction p ! nat (row_slot p r j)) < 0"
        by (auto simp: row_free_def row_slot_def Let_def)
      moreover have "row_slot p r j < int (length (aAction p))"
        using ent[of j] j True mn len by (simp add: row_slot_def)
      ultimately show ?thesis by simp
    next
      case False
      then have req: "r = max e ?b" using r(4) by simp
      have ncand: "\<not> c < ?b" using cand False by (auto simp: c_def)
      have lo: "0 \<le> row_slot p r j" using ent[of j] j r(2) e0 by (simp add: row_slot_def)
      have hi: "row_slot p r j < int (length (aAction p))"
      proof (cases "e \<ge> ?b")
        case True
        then have "r = e" using req by simp
        then have "row_slot p r j \<le> lookahead (aLookahead p ! nat j)" using ebound by (simp add: row_slot_def)
        then show ?thesis using ent[of j] j mx rm' na by linarith
      next
        case eb: False
        then have rb: "r = ?b" using req by simp
        have "mnLookahead p \<noteq> 0" using ncand bgt by (auto simp: c_def)
        then have "0 < mnLookahead p" using mn by simp
        then show ?thesis using ent[of j] j rb len by (simp add: row_slot_def)
      qed
      have "nAction p \<le> row_slot p r j" using ent[of j] j False bgt by (simp add: row_slot_def)
      then have "aAction p ! nat (row_slot p r j) = empty_entry" using empi hi by blast
      then show ?thesis using lo hi by (simp add: empty_entry_def)
    qed
    have tb: "r - mnLookahead p + t < int (length (aAction p))" if t: "t < nsymbol p" for t
    proof (cases "c < ?b")
      case True
      then have "r \<le> c" by (rule cand)
      then show ?thesis using t rm' by (simp add: c_def)
    next
      case False
      then have w: "nsymbol p < mnLookahead p + mxLookahead p" by (rule wide)
      show ?thesis
      proof (cases "r < ?b")
        case True
        then show ?thesis using w t len by linarith
      next
        case nb: False
        then have req: "r = max e ?b" using r(4) by simp
        show ?thesis
        proof (cases "e \<ge> ?b")
          case True
          then have "r = e" using req by simp
          then show ?thesis using ebound t rm' na by linarith
        next
          case eb: False
          then have "r = ?b" using req by simp
          then show ?thesis using w t len by linarith
        qed
      qed
    qed
    show ?thesis using fs r(2) sl tb by (auto simp: e_def)
  qed
qed

lemma acttab_insert_result:
  assumes ok: "acttab_ok p0" and row: "row_ok p0"
  shows "\<exists>p' i. acttab_insert p0 safe = Inr (p', i - mnLookahead p0)
     \<and> (if safe then mnLookahead p0 else 0) \<le> i
     \<and> acttab_ok p' \<and> nLookahead p' = 0 \<and> nsymbol p' = nsymbol p0 \<and> nterminal p' = nterminal p0
     \<and> length (aAction p0) \<le> length (aAction p')
     \<and> (safe \<longrightarrow> i + nterminal p0 + 1 \<le> nAction p')
     \<and> (\<forall>j. 0 \<le> j \<and> j < nLookahead p0 \<longrightarrow>
           0 \<le> row_slot p0 i j \<and> row_slot p0 i j < nAction p' \<and> row_slot p0 i j < int (length (aAction p')))
     \<and> (\<forall>j. 0 \<le> j \<and> j < nLookahead p0
           \<and> (\<forall>j'. j < j' \<and> j' < nLookahead p0 \<longrightarrow>
                 lookahead (aLookahead p0 ! nat j') \<noteq> lookahead (aLookahead p0 ! nat j))
           \<longrightarrow> aAction p' ! nat (row_slot p0 i j) = aLookahead p0 ! nat j)
     \<and> (\<forall>k < length (aAction p0). 0 \<le> lookahead (aAction p0 ! k) \<longrightarrow> aAction p' ! k = aAction p0 ! k)
     \<and> (\<forall>t. t < nsymbol p0 \<longrightarrow> i - mnLookahead p0 + t < int (length (aAction p')))
     \<and> nAction p0 \<le> nAction p'"
proof -
  obtain m where m: "grow p0 = Inr (p0\<lparr>nActionAlloc := nActionAlloc p0 + int m,
                              aAction := aAction p0 @ replicate m empty_entry\<rparr>)"
      "acttab_ok (p0\<lparr>nActionAlloc := nActionAlloc p0 + int m,
                              aAction := aAction p0 @ replicate m empty_entry\<rparr>)"
      "has_room (p0\<lparr>nActionAlloc := nActionAlloc p0 + int m,
                              aAction := aAction p0 @ replicate m empty_entry\<rparr>)"
    using grow_props[OF ok] by blast
  define p where "p = p0\<lparr>nActionAlloc := nActionAlloc p0 + int m,
                              aAction := aAction p0 @ replicate m empty_entry\<rparr>"
  have gp: "grow p0 = Inr p" and okp: "acttab_ok p" and rm: "has_room p"
    using m by (simp_all add: p_def)
  have same: "aLookahead p = aLookahead p0" "nLookahead p = nLookahead p0"
    "mnLookahead p = mnLookahead p0" "mxLookahead p = mxLookahead p0"
    "nsymbol p = nsymbol p0" "nterminal p = nterminal p0" "nAction p = nAction p0"
    "aAction p = aAction p0 @ replicate m empty_entry"
    by (simp_all add: p_def)
  have rowp: "row_ok p" using row by (simp add: row_ok_def pending_def same)
  have slp: "row_slot p i j = row_slot p0 i j" for i j by (simp add: row_slot_def same)
  have len: "nActionAlloc p = int (length (aAction p))" and na: "0 \<le> nAction p"
    and ns: "0 \<le> nsymbol p"
    and emp: "\<forall>k. nat (nAction p) \<le> k \<and> k < length (aAction p) \<longrightarrow> aAction p ! k = empty_entry"
    and lb: "\<forall>k < length (aAction p). - 1 \<le> lookahead (aAction p ! k)"
    and nl: "nLookahead p \<le> int (length (aLookahead p))"
    and nla: "nLookaheadAlloc p = int (length (aLookahead p))"
    using okp by (auto simp: acttab_ok_def)
  have npos: "0 < nLookahead p" and mn: "0 \<le> mnLookahead p"
    and bnd: "\<forall>a \<in> set (pending p). mnLookahead p \<le> lookahead a \<and> lookahead a \<le> mxLookahead p"
    using rowp by (auto simp: row_ok_def)
  have ent: "0 \<le> lookahead (aLookahead p ! nat j)" if "0 \<le> j" "j < nLookahead p" for j
    using bnd pending_nth[OF nl that] mn by force
  obtain i where i: "find_slot p safe = Inr i" "(if safe then mnLookahead p else 0) \<le> i"
     "\<forall>j. 0 \<le> j \<and> j < nLookahead p \<longrightarrow>
            0 \<le> row_slot p i j \<and> row_slot p i j < int (length (aAction p))"
     "(\<forall>j. 0 \<le> j \<and> j < nLookahead p \<longrightarrow> row_hit p i j)
         \<or> (\<forall>j. 0 \<le> j \<and> j < nLookahead p \<longrightarrow> lookahead (aAction p ! nat (row_slot p i j)) < 0)"
     "\<forall>t. t < nsymbol p \<longrightarrow> i - mnLookahead p + t < int (length (aAction p))"
    using find_slot_result[OF okp rowp rm, of safe] by blast
  obtain s n where sn: "install p i 0 = Inr (p\<lparr>aAction := s, nAction := n\<rparr>)"
    "length s = length (aAction p)" "nAction p \<le> n"
    "\<forall>j'. 0 \<le> j' \<and> j' < nLookahead p \<longrightarrow> row_slot p i j' < n"
    "\<forall>k < length s. s ! k = aAction p ! k
          \<or> (\<exists>j'. 0 \<le> j' \<and> j' < nLookahead p \<and> int k = row_slot p i j' \<and> s ! k = aLookahead p ! nat j')"
    "\<forall>j'. 0 \<le> j' \<and> j' < nLookahead p
          \<and> (\<forall>j''. j' < j'' \<and> j'' < nLookahead p \<longrightarrow>
                lookahead (aLookahead p ! nat j'') \<noteq> lookahead (aLookahead p ! nat j'))
          \<longrightarrow> s ! nat (row_slot p i j') = aLookahead p ! nat j'"
    using install_result[OF nl _ i(3)] by auto
  define n' where "n' = (if safe \<and> i + nterminal p \<ge> n then i + nterminal p + 1 else n)"
  define p' where "p' = p\<lparr>aAction := s, nAction := n', nLookahead := 0\<rparr>"
  have res: "acttab_insert p0 safe = Inr (p', i - mnLookahead p0)"
    using npos gp i(1) sn(1)
    by (simp add: acttab_insert_def same Let_def p'_def n'_def)
  have nn': "n \<le> n'" by (simp add: n'_def)
  have pres: "s ! k = aAction p ! k" if k: "k < length (aAction p)" "0 \<le> lookahead (aAction p ! k)" for k
  proof -
    from sn(5) k(1) sn(2) consider (u) "s ! k = aAction p ! k"
      | (w) j' where "0 \<le> j'" "j' < nLookahead p" "int k = row_slot p i j'" "s ! k = aLookahead p ! nat j'"
      by auto
    then show ?thesis
    proof cases
      case u then show ?thesis .
    next
      case w
      have kk: "nat (row_slot p i j') = k" using w(3) by simp
      from i(4) show ?thesis
      proof
        assume "\<forall>j. 0 \<le> j \<and> j < nLookahead p \<longrightarrow> row_hit p i j"
        then have "row_hit p i j'" using w(1,2) by blast
        then have "aAction p ! nat (row_slot p i j') = aLookahead p ! nat j'"
          by (simp add: row_hit_def row_slot_def Let_def)
        then show ?thesis using w(4) kk by simp
      next
        assume "\<forall>j. 0 \<le> j \<and> j < nLookahead p \<longrightarrow> lookahead (aAction p ! nat (row_slot p i j)) < 0"
        then have "lookahead (aAction p ! nat (row_slot p i j')) < 0" using w(1,2) by blast
        then show ?thesis using k(2) kk by simp
      qed
    qed
  qed
  have okp': "acttab_ok p'"
  proof -
    have "aAction p' ! k = empty_entry" if k: "nat (nAction p') \<le> k \<and> k < length (aAction p')" for k
    proof -
      have "nat n' \<le> k" using k by (simp add: p'_def)
      then have kn: "n \<le> int k" using nn' by linarith
      have kl: "k < length s" using k by (simp add: p'_def)
      from sn(5) kl consider (u) "s ! k = aAction p ! k"
        | (w) j' where "0 \<le> j'" "j' < nLookahead p" "int k = row_slot p i j'"
        by auto
      then show ?thesis
      proof cases
        case u
        have "nat (nAction p) \<le> k \<and> k < length (aAction p)" using kn sn(2,3) kl by linarith
        then show ?thesis using emp u by (simp add: p'_def)
      next
        case w
        then have "int k < n" using sn(4) by auto
        then show ?thesis using kn by simp
      qed
    qed
    moreover have "- 1 \<le> lookahead (aAction p' ! k)" if k: "k < length (aAction p')" for k
    proof -
      have kl: "k < length s" using k by (simp add: p'_def)
      from sn(5) kl consider (u) "s ! k = aAction p ! k"
        | (w) j' where "0 \<le> j'" "j' < nLookahead p" "s ! k = aLookahead p ! nat j'"
        by auto
      then show ?thesis
      proof cases
        case u
        then show ?thesis using lb kl sn(2) by (simp add: p'_def)
      next
        case w
        then show ?thesis using ent[of j'] by (simp add: p'_def)
      qed
    qed
    moreover have "0 \<le> nAction p'" using na sn(3) nn' by (simp add: p'_def)
    ultimately show ?thesis
      using len ns nla sn(2) by (simp add: acttab_ok_def p'_def)
  qed
  have c_safe: "safe \<longrightarrow> i + nterminal p0 + 1 \<le> nAction p'"
    by (simp add: p'_def n'_def same)
  have c_slot: "\<forall>j. 0 \<le> j \<and> j < nLookahead p0 \<longrightarrow>
           0 \<le> row_slot p0 i j \<and> row_slot p0 i j < nAction p' \<and> row_slot p0 i j < int (length (aAction p'))"
  proof (intro allI impI)
    fix j assume j: "0 \<le> j \<and> j < nLookahead p0"
    then have "0 \<le> row_slot p i j \<and> row_slot p i j < int (length (aAction p))" using i(3) same by simp
    moreover have "row_slot p i j < n" using sn(4) j same by simp
    ultimately show "0 \<le> row_slot p0 i j \<and> row_slot p0 i j < nAction p' \<and> row_slot p0 i j < int (length (aAction p'))"
      using nn' sn(2) by (simp add: slp p'_def)
  qed
  have c_last: "\<forall>j. 0 \<le> j \<and> j < nLookahead p0
           \<and> (\<forall>j'. j < j' \<and> j' < nLookahead p0 \<longrightarrow>
                 lookahead (aLookahead p0 ! nat j') \<noteq> lookahead (aLookahead p0 ! nat j))
           \<longrightarrow> aAction p' ! nat (row_slot p0 i j) = aLookahead p0 ! nat j"
    using sn(6) by (simp add: slp same p'_def)
  have c_pres: "\<forall>k < length (aAction p0). 0 \<le> lookahead (aAction p0 ! k) \<longrightarrow> aAction p' ! k = aAction p0 ! k"
  proof (intro allI impI)
    fix k assume k: "k < length (aAction p0)" "0 \<le> lookahead (aAction p0 ! k)"
    have e: "aAction p ! k = aAction p0 ! k" using k(1) by (simp add: same nth_append)
    have "s ! k = aAction p ! k" using pres[of k] k e by (simp add: same)
    then show "aAction p' ! k = aAction p0 ! k" using e by (simp add: p'_def)
  qed
  have c_len: "length (aAction p0) \<le> length (aAction p')" using sn(2) by (simp add: p'_def same)
  have c_misc: "nLookahead p' = 0 \<and> nsymbol p' = nsymbol p0 \<and> nterminal p' = nterminal p0"
    by (simp add: p'_def same)
  have c_i: "(if safe then mnLookahead p0 else 0) \<le> i" using i(2) by (simp add: same split: if_splits)
  have c_tb: "\<forall>t. t < nsymbol p0 \<longrightarrow> i - mnLookahead p0 + t < int (length (aAction p'))"
    using i(5) sn(2) by (simp add: same p'_def)
  have c_na: "nAction p0 \<le> nAction p'" using sn(3) nn' by (simp add: p'_def same)
  show ?thesis
    using res c_i okp' c_misc c_len c_safe c_slot c_last c_pres c_tb c_na by blast
qed

lemma acttab_action_result:
  assumes ok: "acttab_ok p"
  shows "\<exists>p'. acttab_action p la act = Inr p' \<and> acttab_ok p'
     \<and> pending p' = pending p @ [\<lparr>lookahead = la, action = act\<rparr>]
     \<and> nLookahead p' = nLookahead p + 1
     \<and> aAction p' = aAction p \<and> nAction p' = nAction p
     \<and> nsymbol p' = nsymbol p \<and> nterminal p' = nterminal p
     \<and> mnLookahead p' = (if nLookahead p = 0 then la else min (mnLookahead p) la)
     \<and> mxLookahead p' = (if nLookahead p = 0 then la else max (mxLookahead p) la)"
proof -
  have nl: "nLookahead p \<le> int (length (aLookahead p))" and n0: "0 \<le> nLookahead p"
    and nla: "nLookaheadAlloc p = int (length (aLookahead p))"
    using ok by (auto simp: acttab_ok_def)
  define s1 where "s1 = (if nLookahead p \<ge> nLookaheadAlloc p
      then aLookahead p @ replicate 25 zero_entry else aLookahead p)"
  define e where "e = \<lparr>lookahead = la, action = act\<rparr>"
  have l1: "nLookahead p < int (length s1)" using nl nla by (simp add: s1_def)
  have t1: "take (nat (nLookahead p)) s1 = pending p"
    using nl by (simp add: s1_def pending_def)
  define p' where "p' = p\<lparr>nLookaheadAlloc := int (length s1),
      mxLookahead := (if nLookahead p = 0 then la else max (mxLookahead p) la),
      mnLookahead := (if nLookahead p = 0 then la else min (mnLookahead p) la),
      mnAction := (if nLookahead p = 0 then act else if mnLookahead p > la then act else mnAction p),
      aLookahead := s1[nat (nLookahead p) := e], nLookahead := nLookahead p + 1\<rparr>"
  have res: "acttab_action p la act = Inr p'"
    using l1 n0 nla
    by (auto simp: acttab_action_def Let_def s1_def p'_def e_def max_def min_def)
  have "take (nat (nLookahead p + 1)) (s1[nat (nLookahead p) := e]) = pending p @ [e]"
  proof -
    have "nat (nLookahead p + 1) = Suc (nat (nLookahead p))" using n0 by simp
    moreover have "nat (nLookahead p) < length (s1[nat (nLookahead p) := e])" using l1 n0 by simp
    ultimately show ?thesis using t1 by (simp add: take_Suc_conv_app_nth)
  qed
  then have pend: "pending p' = pending p @ [e]" by (simp add: pending_def p'_def)
  have "acttab_ok p'"
    using ok l1 n0 by (simp add: acttab_ok_def p'_def)
  then show ?thesis using res pend by (simp add: p'_def e_def)
qed

lemma acttab_action_row_ok:
  assumes ok: "acttab_ok p" and inv: "nLookahead p = 0 \<or> row_ok p"
    and la: "0 \<le> la" "la < nsymbol p"
  shows "\<exists>p'. acttab_action p la act = Inr p' \<and> acttab_ok p' \<and> row_ok p'
     \<and> pending p' = pending p @ [\<lparr>lookahead = la, action = act\<rparr>]
     \<and> aAction p' = aAction p \<and> nAction p' = nAction p
     \<and> nsymbol p' = nsymbol p \<and> nterminal p' = nterminal p"
proof -
  obtain p' where p': "acttab_action p la act = Inr p'" "acttab_ok p'"
     "pending p' = pending p @ [\<lparr>lookahead = la, action = act\<rparr>]"
     "nLookahead p' = nLookahead p + 1"
     "aAction p' = aAction p" "nAction p' = nAction p"
     "nsymbol p' = nsymbol p" "nterminal p' = nterminal p"
     "mnLookahead p' = (if nLookahead p = 0 then la else min (mnLookahead p) la)"
     "mxLookahead p' = (if nLookahead p = 0 then la else max (mxLookahead p) la)"
    using acttab_action_result[OF ok] by blast
  have n0: "0 \<le> nLookahead p" using ok by (simp add: acttab_ok_def)
  have "row_ok p'"
  proof (cases "nLookahead p = 0")
    case True
    then have "pending p = []" by (simp add: pending_def)
    then show ?thesis using p' True la by (simp add: row_ok_def)
  next
    case False
    then have r: "row_ok p" using inv by simp
    then show ?thesis using p' False la n0 by (auto simp: row_ok_def)
  qed
  then show ?thesis using p' by blast
qed

text \<open>The result of an insertion in terms of the list of pending entries.\<close>

lemma acttab_insert_pending:
  assumes ok: "acttab_ok p0" and row: "row_ok p0"
  shows "\<exists>p' ofs. acttab_insert p0 safe = Inr (p', ofs)
     \<and> (if safe then 0 else - mnLookahead p0) \<le> ofs
     \<and> acttab_ok p' \<and> nLookahead p' = 0 \<and> nsymbol p' = nsymbol p0 \<and> nterminal p' = nterminal p0
     \<and> length (aAction p0) \<le> length (aAction p')
     \<and> (safe \<longrightarrow> ofs + mnLookahead p0 + nterminal p0 + 1 \<le> nAction p')
     \<and> (\<forall>e \<in> set (pending p0). 0 \<le> ofs + lookahead e \<and> ofs + lookahead e < nAction p'
            \<and> ofs + lookahead e < int (length (aAction p')))
     \<and> (\<forall>j < length (pending p0).
            (\<forall>j'. j < j' \<and> j' < length (pending p0) \<longrightarrow>
                  lookahead (pending p0 ! j') \<noteq> lookahead (pending p0 ! j))
            \<longrightarrow> aAction p' ! nat (ofs + lookahead (pending p0 ! j)) = pending p0 ! j)
     \<and> (\<forall>k < length (aAction p0). 0 \<le> lookahead (aAction p0 ! k) \<longrightarrow> aAction p' ! k = aAction p0 ! k)
     \<and> (\<forall>t. t < nsymbol p0 \<longrightarrow> ofs + t < int (length (aAction p')))
     \<and> nAction p0 \<le> nAction p'"
proof -
  obtain p' i where r: "acttab_insert p0 safe = Inr (p', i - mnLookahead p0)"
     "(if safe then mnLookahead p0 else 0) \<le> i"
     "acttab_ok p'" "nLookahead p' = 0" "nsymbol p' = nsymbol p0" "nterminal p' = nterminal p0"
     "length (aAction p0) \<le> length (aAction p')"
     "safe \<longrightarrow> i + nterminal p0 + 1 \<le> nAction p'"
     "\<forall>j. 0 \<le> j \<and> j < nLookahead p0 \<longrightarrow>
           0 \<le> row_slot p0 i j \<and> row_slot p0 i j < nAction p' \<and> row_slot p0 i j < int (length (aAction p'))"
     "\<forall>j. 0 \<le> j \<and> j < nLookahead p0
           \<and> (\<forall>j'. j < j' \<and> j' < nLookahead p0 \<longrightarrow>
                 lookahead (aLookahead p0 ! nat j') \<noteq> lookahead (aLookahead p0 ! nat j))
           \<longrightarrow> aAction p' ! nat (row_slot p0 i j) = aLookahead p0 ! nat j"
     "\<forall>k < length (aAction p0). 0 \<le> lookahead (aAction p0 ! k) \<longrightarrow> aAction p' ! k = aAction p0 ! k"
     "\<forall>t. t < nsymbol p0 \<longrightarrow> i - mnLookahead p0 + t < int (length (aAction p'))"
     "nAction p0 \<le> nAction p'"
    using acttab_insert_result[OF ok row, of safe] by blast
  define ofs where "ofs = i - mnLookahead p0"
  have nl: "nLookahead p0 \<le> int (length (aLookahead p0))" and n0: "0 \<le> nLookahead p0"
    using ok by (auto simp: acttab_ok_def)
  have lp: "int (length (pending p0)) = nLookahead p0" using nl n0 by (simp add: pending_def)
  have pn: "pending p0 ! j = aLookahead p0 ! j" if "j < length (pending p0)" for j
    using that by (simp add: pending_def)
  have sl: "row_slot p0 i (int j) = ofs + lookahead (pending p0 ! j)" if "j < length (pending p0)" for j
    using pn[OF that] by (simp add: row_slot_def ofs_def)
  have c1: "(if safe then 0 else - mnLookahead p0) \<le> ofs" using r(2) by (simp add: ofs_def split: if_splits)
  have c2: "safe \<longrightarrow> ofs + mnLookahead p0 + nterminal p0 + 1 \<le> nAction p'" using r(8) by (simp add: ofs_def)
  have c3: "\<forall>e \<in> set (pending p0). 0 \<le> ofs + lookahead e \<and> ofs + lookahead e < nAction p'
            \<and> ofs + lookahead e < int (length (aAction p'))"
  proof
    fix e assume "e \<in> set (pending p0)"
    then obtain j where j: "j < length (pending p0)" "pending p0 ! j = e" by (auto simp: in_set_conv_nth)
    have "0 \<le> int j \<and> int j < nLookahead p0" using j(1) lp by simp
    then have "0 \<le> row_slot p0 i (int j) \<and> row_slot p0 i (int j) < nAction p'
       \<and> row_slot p0 i (int j) < int (length (aAction p'))" using r(9) by blast
    then show "0 \<le> ofs + lookahead e \<and> ofs + lookahead e < nAction p'
            \<and> ofs + lookahead e < int (length (aAction p'))" using sl[OF j(1)] j(2) by simp
  qed
  have c4: "\<forall>j < length (pending p0).
            (\<forall>j'. j < j' \<and> j' < length (pending p0) \<longrightarrow>
                  lookahead (pending p0 ! j') \<noteq> lookahead (pending p0 ! j))
            \<longrightarrow> aAction p' ! nat (ofs + lookahead (pending p0 ! j)) = pending p0 ! j"
  proof (intro allI impI)
    fix j assume j: "j < length (pending p0)"
      and d: "\<forall>j'. j < j' \<and> j' < length (pending p0) \<longrightarrow>
                  lookahead (pending p0 ! j') \<noteq> lookahead (pending p0 ! j)"
    have "lookahead (aLookahead p0 ! nat j') \<noteq> lookahead (aLookahead p0 ! nat (int j))"
      if "int j < j' \<and> j' < nLookahead p0" for j'
    proof -
      have "j < nat j' \<and> nat j' < length (pending p0)" using that lp by linarith
      then show ?thesis using d pn[of "nat j'"] pn[OF j] by auto
    qed
    then have "aAction p' ! nat (row_slot p0 i (int j)) = aLookahead p0 ! nat (int j)"
      using r(10) j lp by auto
    then show "aAction p' ! nat (ofs + lookahead (pending p0 ! j)) = pending p0 ! j"
      using sl[OF j] pn[OF j] by simp
  qed
  show ?thesis
    using r(1,3,4,5,6,7,11,12,13) c1 c2 c3 c4 unfolding ofs_def[symmetric] by blast
qed

section \<open>Properties of the rows and of the packing loop\<close>

lemma compute_action_ok:
  assumes "lemon_ok lemp" "action_ok lemp a"
  shows "\<exists>c. compute_action lemp a = Inr c \<and> (0 \<le> c \<longleftrightarrow> emitted_type (typ_act a))"
  using assms
  by (cases "typ_act a")
     (auto simp: compute_action_def lemon_ok_def action_ok_def emitted_type_def split: option.splits)

lemma token_row_entries:
  assumes "lemon_ok lemp" "list_all (action_ok lemp) as"
  shows "token_row lemp p as = add_actions p (row_entries lemp True as)"
  using assms
proof (induction as arbitrary: p)
  case Nil
  show ?case by simp
next
  case (Cons a as)
  obtain c where c: "compute_action lemp a = Inr c"
    using compute_action_ok[OF Cons.prems(1)] Cons.prems(2) by auto
  show ?case using Cons c by (auto split: sum.splits)
qed

lemma nonterminal_row_entries:
  assumes "lemon_ok lemp" "list_all (action_ok lemp) as"
  shows "nonterminal_row lemp p as = add_actions p (row_entries lemp False as)"
  using assms
proof (induction as arbitrary: p)
  case Nil
  show ?case by simp
next
  case (Cons a as)
  obtain c where c: "compute_action lemp a = Inr c"
    using compute_action_ok[OF Cons.prems(1)] Cons.prems(2) by auto
  show ?case using Cons c by (auto split: sum.splits)
qed

lemma row_entries_range:
  assumes "lemon_ok lemp" "list_all (action_ok lemp) as" "e \<in> set (row_entries lemp tkn as)"
  shows "0 \<le> fst e \<and> fst e < lemon.nsymbol lemp \<and> 0 \<le> snd e
     \<and> (tkn \<longrightarrow> fst e < lemon.nterminal lemp) \<and> (\<not> tkn \<longrightarrow> lemon.nterminal lemp \<le> fst e)"
  using assms
proof (induction as)
  case Nil
  then show ?case by simp
next
  case (Cons a as)
  then show ?case
    by (auto simp: action_ok_def lemon_ok_def split: if_splits sum.splits)
qed

lemma add_actions_result:
  assumes "acttab_ok p" "nLookahead p = 0 \<or> row_ok p"
    and "\<forall>e \<in> set es. 0 \<le> fst e \<and> fst e < nsymbol p"
  shows "\<exists>p'. add_actions p es = Inr p' \<and> acttab_ok p' \<and> (nLookahead p' = 0 \<or> row_ok p')
     \<and> (es \<noteq> [] \<longrightarrow> row_ok p')
     \<and> pending p' = pending p @ map entry_of es
     \<and> aAction p' = aAction p \<and> nAction p' = nAction p
     \<and> nsymbol p' = nsymbol p \<and> nterminal p' = nterminal p"
  using assms
proof (induction es arbitrary: p)
  case Nil
  then show ?case by simp
next
  case (Cons e es)
  obtain p1 where p1: "acttab_action p (fst e) (snd e) = Inr p1" "acttab_ok p1" "row_ok p1"
     "pending p1 = pending p @ [\<lparr>lookahead = fst e, action = snd e\<rparr>]"
     "aAction p1 = aAction p" "nAction p1 = nAction p"
     "nsymbol p1 = nsymbol p" "nterminal p1 = nterminal p"
    using acttab_action_row_ok[OF Cons.prems(1,2), of "fst e" "snd e"] Cons.prems(3) by auto
  obtain p' where p': "add_actions p1 es = Inr p'" "acttab_ok p'" "nLookahead p' = 0 \<or> row_ok p'"
     "es \<noteq> [] \<longrightarrow> row_ok p'"
     "pending p' = pending p1 @ map entry_of es"
     "aAction p' = aAction p1" "nAction p' = nAction p1"
     "nsymbol p' = nsymbol p1" "nterminal p' = nterminal p1"
    using Cons.IH[OF p1(2), of ] p1(3,7) Cons.prems(3) by auto
  have "row_ok p'"
  proof (cases "es = []")
    case True
    then show ?thesis using p'(1) p1(3) by simp
  next
    case False
    then show ?thesis using p'(4) by simp
  qed
  then show ?case using p1 p' by (simp add: entry_of_def)
qed

lemma preserves_refl: "preserves p p"
  by (simp add: preserves_def)

lemma preserves_trans: "preserves p p1 \<Longrightarrow> preserves p1 p2 \<Longrightarrow> preserves p p2"
  by (auto simp: preserves_def)

lemma row_installed_preserved:
  assumes "row_installed p ofs es" "preserves p p'" "\<forall>e \<in> set es. 0 \<le> fst e"
  shows "row_installed p' ofs es"
  unfolding row_installed_def
proof (intro allI impI)
  fix j assume j: "j < length es"
  have a: "0 \<le> ofs + fst (es ! j)" "ofs + fst (es ! j) < int (length (aAction p))"
    using assms(1) j by (auto simp: row_installed_def)
  have k: "nat (ofs + fst (es ! j)) < length (aAction p)" using a by linarith
  have "aAction p' ! nat (ofs + fst (es ! j)) = entry_of (es ! j)" if l: "last_on es j"
  proof -
    have e: "aAction p ! nat (ofs + fst (es ! j)) = entry_of (es ! j)"
      using assms(1) j l by (auto simp: row_installed_def)
    have "0 \<le> fst (es ! j)" using assms(3) j by simp
    then have "0 \<le> lookahead (aAction p ! nat (ofs + fst (es ! j)))"
      using e by (simp add: entry_of_def)
    then have "aAction p' ! nat (ofs + fst (es ! j)) = aAction p ! nat (ofs + fst (es ! j))"
      using assms(2) k by (simp add: preserves_def)
    then show ?thesis using e by simp
  qed
  then show "0 \<le> ofs + fst (es ! j) \<and> ofs + fst (es ! j) < int (length (aAction p'))
        \<and> (last_on es j \<longrightarrow> aAction p' ! nat (ofs + fst (es ! j)) = entry_of (es ! j))"
    using a assms(2) by (simp add: preserves_def)
qed

lemma pack_step:
  assumes l: "lemon_ok l" and ok: "acttab_ok p" and n0: "nLookahead p = 0"
    and ns: "nsymbol p = lemon.nsymbol l" and a: "ax_ok l a" and pos: "0 < nAction_ax a"
  defines "es \<equiv> row_entries l (isTkn a) (ap (stp_ax a))"
  shows "\<exists>p1 p2 ofs.
       (if isTkn a then token_row l p (ap (stp_ax a)) else nonterminal_row l p (ap (stp_ax a))) = Inr p1
     \<and> acttab_insert p1 (isTkn a) = Inr (p2, ofs)
     \<and> acttab_ok p2 \<and> nLookahead p2 = 0 \<and> nsymbol p2 = nsymbol p \<and> nterminal p2 = nterminal p
     \<and> preserves p p2
     \<and> row_installed p2 ofs es"
proof -
  have wf: "list_all (action_ok l) (ap (stp_ax a))" and ne: "es \<noteq> []"
    using a pos by (auto simp: ax_ok_def es_def)
  have rows: "(if isTkn a then token_row l p (ap (stp_ax a)) else nonterminal_row l p (ap (stp_ax a)))
      = add_actions p es"
    using token_row_entries[OF l wf] nonterminal_row_entries[OF l wf] by (simp add: es_def)
  have rng: "\<forall>e \<in> set es. 0 \<le> fst e \<and> fst e < nsymbol p"
    using row_entries_range[OF l wf] ns by (auto simp: es_def)
  have pe: "pending p = []" using n0 by (simp add: pending_def)
  obtain p1 where p1: "add_actions p es = Inr p1" "acttab_ok p1" "row_ok p1"
     "pending p1 = map entry_of es" "aAction p1 = aAction p" "nsymbol p1 = nsymbol p"
     "nterminal p1 = nterminal p"
    using add_actions_result[OF ok _ rng] n0 ne pe by auto
  obtain p2 ofs where p2: "acttab_insert p1 (isTkn a) = Inr (p2, ofs)"
     "acttab_ok p2" "nLookahead p2 = 0" "nsymbol p2 = nsymbol p1" "nterminal p2 = nterminal p1"
     "length (aAction p1) \<le> length (aAction p2)"
     "\<forall>e \<in> set (pending p1). 0 \<le> ofs + lookahead e \<and> ofs + lookahead e < nAction p2
            \<and> ofs + lookahead e < int (length (aAction p2))"
     "\<forall>j < length (pending p1).
            (\<forall>j'. j < j' \<and> j' < length (pending p1) \<longrightarrow>
                  lookahead (pending p1 ! j') \<noteq> lookahead (pending p1 ! j))
            \<longrightarrow> aAction p2 ! nat (ofs + lookahead (pending p1 ! j)) = pending p1 ! j"
     "\<forall>k < length (aAction p1). 0 \<le> lookahead (aAction p1 ! k) \<longrightarrow> aAction p2 ! k = aAction p1 ! k"
    using acttab_insert_pending[OF p1(2,3), of "isTkn a"] by blast
  have pres: "preserves p p2" using p2(6,9) p1(5) by (simp add: preserves_def)
  have inst: "row_installed p2 ofs es"
    unfolding row_installed_def
  proof (intro allI impI)
    fix j assume j: "j < length es"
    have pj: "pending p1 ! j = entry_of (es ! j)" using j p1(4) by simp
    have le: "lookahead (entry_of x) = fst x" for x by (simp add: entry_of_def)
    have "entry_of (es ! j) \<in> set (pending p1)" using j p1(4) by simp
    then have bnd: "0 \<le> ofs + fst (es ! j)" "ofs + fst (es ! j) < int (length (aAction p2))"
      using p2(7) by (auto simp: le)
    have "aAction p2 ! nat (ofs + fst (es ! j)) = entry_of (es ! j)" if l: "last_on es j"
    proof -
      have "lookahead (pending p1 ! j') \<noteq> lookahead (pending p1 ! j)"
        if "j < j' \<and> j' < length (pending p1)" for j'
        using that l j p1(4) by (simp add: last_on_def le)
      then have "aAction p2 ! nat (ofs + lookahead (pending p1 ! j)) = pending p1 ! j"
        using p2(8) j p1(4) by simp
      then show ?thesis using pj by (simp add: le)
    qed
    then show "0 \<le> ofs + fst (es ! j) \<and> ofs + fst (es ! j) < int (length (aAction p2))
        \<and> (last_on es j \<longrightarrow> aAction p2 ! nat (ofs + fst (es ! j)) = entry_of (es ! j))"
      using bnd by simp
  qed
  show ?thesis
    using rows p1(1) p2(1,2,3) p2(4,5) p1(6,7) pres inst by auto
qed

lemma ReportTable_pack_result:
  assumes l: "lemon_ok l" and ok: "acttab_ok p" and n0: "nLookahead p = 0"
    and ns: "nsymbol p = lemon.nsymbol l" and ax: "\<forall>a \<in> set ax. ax_ok l a"
  shows "\<exists>p' offs. ReportTable_pack l p ax = Inr (p', offs)
     \<and> acttab_ok p' \<and> preserves p p'
     \<and> length offs = length (takeWhile (\<lambda>a. 0 < nAction_ax a) ax)
     \<and> (\<forall>n < length offs.
           row_installed p' (offs ! n) (row_entries l (isTkn (ax ! n)) (ap (stp_ax (ax ! n)))))"
  using ok n0 ns ax
proof (induction ax arbitrary: p)
  case Nil
  then show ?case by (simp add: preserves_refl)
next
  case (Cons a ax)
  show ?case
  proof (cases "0 < nAction_ax a")
    case False
    then show ?thesis using Cons.prems(1) by (simp add: preserves_refl)
  next
    case True
    define es where "es = row_entries l (isTkn a) (ap (stp_ax a))"
    have aok: "ax_ok l a" using Cons.prems(4) by simp
    obtain p1 p2 ofs where s:
      "(if isTkn a then token_row l p (ap (stp_ax a)) else nonterminal_row l p (ap (stp_ax a))) = Inr p1"
      "acttab_insert p1 (isTkn a) = Inr (p2, ofs)"
      "acttab_ok p2" "nLookahead p2 = 0" "nsymbol p2 = nsymbol p" "preserves p p2"
      "row_installed p2 ofs es"
      using pack_step[OF l Cons.prems(1,2,3) aok True] unfolding es_def by blast
    obtain p' offs where r: "ReportTable_pack l p2 ax = Inr (p', offs)"
      "acttab_ok p'" "preserves p2 p'"
      "length offs = length (takeWhile (\<lambda>a. 0 < nAction_ax a) ax)"
      "\<forall>n < length offs.
           row_installed p' (offs ! n) (row_entries l (isTkn (ax ! n)) (ap (stp_ax (ax ! n))))"
      using Cons.IH[OF s(3,4)] s(5) Cons.prems(3,4) by auto
    have res: "ReportTable_pack l p (a # ax) = Inr (p', ofs # offs)"
      using True s(1,2) r(1) by (simp split: if_splits)
    have rng: "\<forall>e \<in> set es. 0 \<le> fst e"
      using row_entries_range[OF l] aok by (auto simp: es_def ax_ok_def)
    have first: "row_installed p' ofs es"
      using s(7) row_installed_preserved[OF _ r(3) rng] by blast
    have all: "\<forall>n < length (ofs # offs).
           row_installed p' ((ofs # offs) ! n)
                 (row_entries l (isTkn ((a # ax) ! n)) (ap (stp_ax ((a # ax) ! n))))"
    proof (intro allI impI)
      fix n assume n: "n < length (ofs # offs)"
      show "row_installed p' ((ofs # offs) ! n)
                 (row_entries l (isTkn ((a # ax) ! n)) (ap (stp_ax ((a # ax) ! n))))"
      proof (cases n)
        case 0
        then show ?thesis using first by (simp add: es_def)
      next
        case (Suc m)
        then show ?thesis using r(5) n by simp
      qed
    qed
    show ?thesis
      using res r(2) preserves_trans[OF s(6) r(3)] r(4) True all by simp
  qed
qed

lemma row_entries_length:
  assumes "lemon_ok lemp" "list_all (action_ok lemp) as"
  shows "length (row_entries lemp tkn as) = length (filter (in_row lemp tkn) as)"
  using assms
proof (induction as)
  case Nil
  show ?case by simp
next
  case (Cons a as)
  obtain c where c: "compute_action lemp a = Inr c" "0 \<le> c \<longleftrightarrow> emitted_type (typ_act a)"
    using compute_action_ok[OF Cons.prems(1)] Cons.prems(2) by auto
  show ?case using Cons c by (auto simp: in_row_def)
qed

lemma count_actions_result:
  assumes "lemon_ok lemp" "list_all (action_ok lemp) as" "count_actions lemp st as = Inr st'"
  shows "nTknAct st' = nTknAct st + int (length (filter (in_row lemp True) as))
       \<and> nNtAct st' = nNtAct st + int (length (filter (in_row lemp False) as))
       \<and> ap st' = ap st"
  using assms
proof (induction as arbitrary: st)
  case Nil
  then show ?case by simp
next
  case (Cons a as)
  obtain c where c: "compute_action lemp a = Inr c" "0 \<le> c \<longleftrightarrow> emitted_type (typ_act a)"
    using compute_action_ok[OF Cons.prems(1)] Cons.prems(2) by auto
  have ix: "index (sp a) \<le> lemon.nsymbol lemp" using Cons.prems(2) by (simp add: action_ok_def)
  have wf: "list_all (action_ok lemp) as" using Cons.prems(2) by simp
  consider (n) "\<not> 0 \<le> c"
    | (t) "0 \<le> c" "index (sp a) < lemon.nterminal lemp"
    | (nt) "0 \<le> c" "\<not> index (sp a) < lemon.nterminal lemp" "index (sp a) < lemon.nsymbol lemp"
    | (d) "0 \<le> c" "\<not> index (sp a) < lemon.nterminal lemp" "\<not> index (sp a) < lemon.nsymbol lemp"
    by blast
  then show ?case
  proof cases
    case n
    then have "count_actions lemp st as = Inr st'" using Cons.prems(3) c(1) by simp
    from Cons.IH[OF Cons.prems(1) wf this] show ?thesis using n c(2) by (simp add: in_row_def)
  next
    case t
    then have "count_actions lemp (st\<lparr>nTknAct := nTknAct st + 1\<rparr>) as = Inr st'"
      using Cons.prems(3) c(1) by simp
    from Cons.IH[OF Cons.prems(1) wf this] show ?thesis using t c(2) by (simp add: in_row_def)
  next
    case nt
    then have "count_actions lemp (st\<lparr>nNtAct := nNtAct st + 1\<rparr>) as = Inr st'"
      using Cons.prems(3) c(1) by simp
    from Cons.IH[OF Cons.prems(1) wf this] show ?thesis using nt c(2) by (simp add: in_row_def)
  next
    case d
    then have "count_actions lemp (st\<lparr>iDfltReduce := c\<rparr>) as = Inr st'"
      using Cons.prems(3) c(1) by (simp split: if_splits)
    from Cons.IH[OF Cons.prems(1) wf this] show ?thesis using d c(2) ix by (simp add: in_row_def)
  qed
qed

lemma action_ok_renumber:
  assumes "action_ok l0 a" "\<forall>n. 0 \<le> n \<longrightarrow> 0 \<le> f n" "lemon.nsymbol l = lemon.nsymbol l0"
  shows "action_ok l (renumber f a)"
  using assms by (auto simp: action_ok_def renumber_def)

lemma in_row_renumber:
  assumes "lemon.nsymbol l = lemon.nsymbol l0" "lemon.nterminal l = lemon.nterminal l0"
  shows "in_row l tkn (renumber f a) = in_row l0 tkn a"
  using assms by (simp add: in_row_def renumber_def)

lemma ax_counted_ok:
  assumes l0: "lemon_ok l0" and l: "lemon_ok l"
    and same: "lemon.nsymbol l = lemon.nsymbol l0" "lemon.nterminal l = lemon.nterminal l0"
    and c: "ax_counted l0 a"
  shows "ax_ok l a"
proof -
  obtain st0 st f i where h: "list_all (action_ok l0) (ap st0)" "\<forall>n. 0 \<le> n \<longrightarrow> 0 \<le> f n"
     "ResortStates_state l0 st0 = Inr st"
     "a \<in> set (ax_of_state i (st\<lparr>ap := map (renumber f) (ap st)\<rparr>))"
    using c unfolding ax_counted_def by blast
  define st1 where "st1 = st0\<lparr>nTknAct := 0, nNtAct := 0, iDfltReduce := - 1,
     iTknOfst := NO_OFFSET, iNtOfst := NO_OFFSET\<rparr>"
  have "count_actions l0 st1 (ap st0) = Inr st"
    using h(3) by (simp add: ResortStates_state_def st1_def)
  from count_actions_result[OF l0 h(1) this]
  have cnt: "nTknAct st = int (length (filter (in_row l0 True) (ap st0)))"
     "nNtAct st = int (length (filter (in_row l0 False) (ap st0)))" "ap st = ap st0"
    by (simp_all add: st1_def)
  define as where "as = map (renumber f) (ap st0)"
  have wf: "list_all (action_ok l) as"
    using h(1) action_ok_renumber[OF _ h(2) same(1)] by (simp add: as_def list_all_iff)
  have fl: "filter (in_row l tkn) as = map (renumber f) (filter (in_row l0 tkn) (ap st0))" for tkn
    by (simp add: as_def filter_map comp_def in_row_renumber[OF same])
  have len: "length (row_entries l tkn as) = length (filter (in_row l0 tkn) (ap st0))" for tkn
    using row_entries_length[OF l wf, of tkn] by (simp add: fl)
  have apa: "ap (stp_ax a) = as" and na: "nAction_ax a = (if isTkn a then nTknAct st else nNtAct st)"
    using h(4) cnt(3) by (auto simp: ax_of_state_def as_def)
  have "row_entries l (isTkn a) as \<noteq> []" if "0 < nAction_ax a"
  proof -
    have "0 < length (row_entries l (isTkn a) as)"
      using that na cnt(1,2) len[of "isTkn a"] by (auto split: if_splits)
    then show ?thesis by simp
  qed
  then show ?thesis using wf apa by (simp add: ax_ok_def)
qed

lemma acttab_alloc_ok:
  assumes "0 \<le> n"
  shows "acttab_ok (acttab_alloc n t) \<and> nLookahead (acttab_alloc n t) = 0
     \<and> nsymbol (acttab_alloc n t) = n \<and> nterminal (acttab_alloc n t) = t"
  using assms by (simp add: acttab_ok_def acttab_alloc_def)

lemma hole_scan_lower:
  "hole_scan p i = Inr r \<Longrightarrow> i \<le> r"
proof (induction p i rule: hole_scan.induct)
  case (1 p i)
  from 1(4) show ?case
    apply (subst (asm) hole_scan.simps)
    apply (auto split: if_splits sum.splits)
    using 1(1,2,3) apply fastforce+
    done
qed

lemma find_slot_lower:
  assumes "find_slot p safe = Inr i"
  shows "(if safe then mnLookahead p else 0) \<le> i"
  using assms hole_scan_lower
  by (fastforce simp: find_slot_def Let_def split: sum.splits if_splits)

lemma lemon_after_ok: "lemon_ok lemon_after"
  by (simp add: lemon_ok_def lemon_after_def lemon_before_def ReportTable_boundaries_def)

lemma lemon_before_ok: "lemon_ok lemon_before"
  by (simp add: lemon_ok_def lemon_before_def)

lemma pending_row_ok:
  assumes "0 \<le> nsym" "es \<noteq> []" "\<forall>e \<in> set es. 0 \<le> fst e \<and> fst e < nsym"
  shows "acttab_ok (pending_row nsym nterm es) \<and> row_ok (pending_row nsym nterm es)
    \<and> pending (pending_row nsym nterm es) = map entry_of es
    \<and> nsymbol (pending_row nsym nterm es) = nsym \<and> nterminal (pending_row nsym nterm es) = nterm"
proof -
  have a: "acttab_ok (acttab_alloc nsym nterm)" "nLookahead (acttab_alloc nsym nterm) = 0"
    "nsymbol (acttab_alloc nsym nterm) = nsym" "nterminal (acttab_alloc nsym nterm) = nterm"
    using acttab_alloc_ok[OF assms(1)] by auto
  have "pending (acttab_alloc nsym nterm) = []" by (simp add: pending_def acttab_alloc_def)
  then show ?thesis
    using add_actions_result[OF a(1), of es] a(2,3,4) assms(2,3)
    by (auto simp: pending_row_def)
qed

text \<open>
  The packing loop of \<^verbatim>\<open>ReportTable\<close> returns, for every grammar record and every array \<open>ax\<close>
  whose entries have well-formed actions and, when their count is positive, at least one
  action with an action code in their row. With the offset \<open>o\<close> that \<^verbatim>\<open>acttab_insert\<close>
  returned for a row, every entry \<open>(t, a)\<close> handed to \<^verbatim>\<open>acttab_action\<close> for the row has its
  slot \<open>o + t\<close> inside the final table, and the slot holds \<open>(t, a)\<close> unless a later entry of
  the same row has the same lookahead \<open>t\<close>: insertions of later rows change no used slot.
\<close>

lemma ReportTable_pack_rows:
  assumes "lemon_ok l" and "\<forall>a \<in> set ax. ax_ok l a"
  shows "\<exists>p' offs.
       ReportTable_pack l (acttab_alloc (lemon.nsymbol l) (lemon.nterminal l)) ax = Inr (p', offs)
     \<and> length offs = length (takeWhile (\<lambda>a. 0 < nAction_ax a) ax)
     \<and> (\<forall>n < length offs. \<forall>j < length (row_entries l (isTkn (ax ! n)) (ap (stp_ax (ax ! n)))).
           0 \<le> offs ! n + fst (row_entries l (isTkn (ax ! n)) (ap (stp_ax (ax ! n))) ! j)
         \<and> offs ! n + fst (row_entries l (isTkn (ax ! n)) (ap (stp_ax (ax ! n))) ! j)
              < int (length (aAction p'))
         \<and> (last_on (row_entries l (isTkn (ax ! n)) (ap (stp_ax (ax ! n)))) j \<longrightarrow>
              aAction p' ! nat (offs ! n + fst (row_entries l (isTkn (ax ! n)) (ap (stp_ax (ax ! n))) ! j))
                = entry_of (row_entries l (isTkn (ax ! n)) (ap (stp_ax (ax ! n))) ! j)))"
proof -
  have n: "0 \<le> lemon.nsymbol l" using assms(1) by (simp add: lemon_ok_def)
  obtain p' offs where r:
    "ReportTable_pack l (acttab_alloc (lemon.nsymbol l) (lemon.nterminal l)) ax = Inr (p', offs)"
    "length offs = length (takeWhile (\<lambda>a. 0 < nAction_ax a) ax)"
    "\<forall>n < length offs.
           row_installed p' (offs ! n) (row_entries l (isTkn (ax ! n)) (ap (stp_ax (ax ! n))))"
    using ReportTable_pack_result[OF assms(1) _ _ _ assms(2),
        of "acttab_alloc (lemon.nsymbol l) (lemon.nterminal l)"] acttab_alloc_ok[OF n]
    by auto
  show ?thesis
    using r by (intro exI[of _ p'] exI[of _ offs]) (simp add: row_installed_def)
qed

text \<open>A row whose second and third entries have the same lookahead: the first and the
  third are in the table, the second is not.\<close>

lemma repeated_lookahead_last_on:
  "last_on [(1, 5), (3, 8), (3, 11)] 0 \<and> \<not> last_on [(1, 5), (3, 8), (3, 11)] 1
   \<and> last_on [(1, 5), (3, 8), (3, 11)] 2"
proof -
  have "\<not> last_on [(1, 5), (3, 8), (3, 11)] 1"
    unfolding last_on_def by (simp add: exI[of _ 2])
  moreover have "last_on [(1, 5), (3, 8), (3, 11)] 0 \<and> last_on [(1, 5), (3, 8), (3, 11)] 2"
    unfolding last_on_def by (auto simp: nth_Cons' less_Suc_eq numeral_3_eq_3)
  ultimately show ?thesis by simp
qed

lemma repeated_lookahead_row:
  "map_sum id (\<lambda>(p, ofs). (map (\<lambda>e. (lookahead e, action e)) (take (nat (nAction p)) (aAction p)), ofs))
        (acttab_insert (pending_row 6 5 [(1, 5), (3, 8), (3, 11)]) True)
      = Inr ([(- 1, - 1), (1, 5), (- 1, - 1), (3, 11), (- 1, - 1), (- 1, - 1), (- 1, - 1)], 0)"
  by code_simp


section \<open>Properties of the driver\<close>

lemma run_stages_all:
  assumes "\<forall>s lem. \<exists>lem'. st s lem = Inr lem'"
  shows "\<exists>lem'. run_stages st ss lem = (ss, Inr lem')"
proof (induction ss arbitrary: lem)
  case Nil
  show ?case by simp
next
  case (Cons s ss)
  obtain l1 where l1: "st s lem = Inr l1" using assms by blast
  obtain l2 where "run_stages st ss l1 = (ss, Inr l2)" using Cons by blast
  then show ?case using l1 by simp
qed

text \<open>A run of stages that returns has called every stage of the list: when \<^verbatim>\<open>main\<close> gets
  to its last statement, all the stages of the analysis have run.\<close>

lemma run_stages_returns:
  "run_stages st ss lem = (t, Inr lem') \<Longrightarrow> t = ss"
proof (induction ss arbitrary: lem t)
  case Nil
  then show ?case by simp
next
  case (Cons s ss)
  then show ?case by (auto split: sum.splits prod.splits)
qed

lemma main_trace_at_end:
  assumes "final (main st fl) = Some lem2"
  shows "trace (main st fl) = Parse # IndexSymbols # (if rpflag fl then [Reprint] else analysis fl)"
proof -
  obtain lem1 t where r: "st Parse (lemon_start fl) = Inr lem1"
      "run_stages st (IndexSymbols # (if rpflag fl then [Reprint] else analysis fl)) lem1 = (t, Inr lem2)"
      "trace (main st fl) = Parse # t"
    using assms by (auto simp: main_def split: sum.splits prod.splits if_splits)
  show ?thesis using r(3) run_stages_returns[OF r(2)] by simp
qed

text \<open>
  The exit status: at the last statement of \<^verbatim>\<open>main\<close> it is 0 when no error was counted and
  no conflict remains, and 1 otherwise; when \<^verbatim>\<open>Parse\<close> returns with a positive error count
  it is the low eight bits of that count.
\<close>

lemma main_exit_status:
  "(final (main st fl) = Some lem \<longrightarrow>
      code (main st fl) = (if errorcnt lem > 0 \<or> nconflict lem > 0 then 1 else 0))
   \<and> (\<not> version fl \<and> nargs fl = 1 \<and> st Parse (lemon_start fl) = Inr lem1 \<and> errorcnt lem1 > 0 \<longrightarrow>
        code (main st fl) = errorcnt lem1 mod 256 \<and> final (main st fl) = None)"
  by (auto simp: main_def exit_status_def split: sum.splits prod.splits if_splits)

lemma main_exit_status_examples:
  "code (main (stages_ex 0 0) flags_ex) = 0
   \<and> code (main (stages_ex 0 3) flags_ex) = 1
   \<and> code (main (stages_ex 1 0) flags_ex) = 1"
  by (simp add: main_def stages_ex_def flags_ex_def lemon_start_def analysis_def exit_status_def)


section \<open>Properties of the numbering of the symbols\<close>

lemma firstRune_ascii: "ascii_initial x \<Longrightarrow> firstRune x = Some (of_char (hd x))"
  by (cases x) (auto simp: ascii_initial_def Let_def)

lemma passes_ascii:
  assumes "ascii_tables letter up" "ascii_initial x" "passes letter up g x"
  shows "(upper_name x \<or> lower_name x) \<and> (g = Upper \<longrightarrow> upper_name x) \<and> (g = Lower \<longrightarrow> lower_name x)"
  using assms
  by (auto simp: passes_def firstRune_ascii ascii_tables_def ascii_initial_def upper_name_def
      lower_name_def islower_def split: guard.splits)

lemma firstRuneIsUpper_ascii:
  assumes "ascii_tables letter up"
  shows "upper_name x \<Longrightarrow> firstRuneIsUpper up x" and "lower_name x \<Longrightarrow> \<not> firstRuneIsUpper up x"
proof -
  show "upper_name x \<Longrightarrow> firstRuneIsUpper up x"
    using assms firstRune_ascii[of x]
    by (auto simp: firstRuneIsUpper_def upper_name_def ascii_initial_def ascii_tables_def)
  show "lower_name x \<Longrightarrow> \<not> firstRuneIsUpper up x"
    using assms firstRune_ascii[of x]
    by (auto simp: firstRuneIsUpper_def lower_name_def ascii_initial_def ascii_tables_def)
qed

lemma Symbol_find_None: "Symbol_find tab x = None \<longleftrightarrow> x \<notin> name ` set tab"
  by (auto simp: Symbol_find_def find_None_iff)

lemma Symbol_find_Some: "Symbol_find tab x = Some s \<Longrightarrow> s \<in> set tab \<and> name s = x"
  by (auto simp: Symbol_find_def find_Some_iff)

lemma table_ok_Symbol_new:
  assumes t: "ascii_tables letter up" and ok: "table_ok tab" and x: "upper_name x \<or> lower_name x"
  shows "table_ok (Symbol_new up x tab)"
proof (cases "Symbol_find tab x")
  case (Some s)
  then show ?thesis using ok by (simp add: Symbol_new_def)
next
  case None
  let ?s = "\<lparr>name = x, index = 0, typ_sym = (if firstRuneIsUpper up x then TERMINAL else NONTERMINAL),
             prec = - 1, assoc = UNK, subsym = []\<rparr>"
  have new: "Symbol_new up x tab = tab @ [?s]" using None by (simp add: Symbol_new_def)
  have sok: "sym_ok ?s"
    using x firstRuneIsUpper_ascii[OF t, of x]
    by (auto simp: sym_ok_def upper_name_def lower_name_def)
  have nin: "x \<notin> name ` set tab" using None by (simp add: Symbol_find_None)
  show ?thesis
    unfolding new using ok sok nin
    by (auto simp: table_ok_def list_all_iff list_ex_iff)
qed

lemma Symbol_new_names:
  "name ` set (Symbol_new up x tab) = insert x (name ` set tab)"
  by (cases "Symbol_find tab x") (auto simp: Symbol_new_def dest: Symbol_find_Some)

lemma table_ok_retype:
  assumes ok: "table_ok tab" and x: "lower_name x"
  shows "table_ok (map (\<lambda>s. if name s = x then s\<lparr>typ_sym := MULTITERMINAL\<rparr> else s) tab)"
proof -
  let ?f = "\<lambda>s. if name s = x then s\<lparr>typ_sym := MULTITERMINAL\<rparr> else s"
  have nm: "\<And>s. name (?f s) = name s" by simp
  have nx: "x \<noteq> ''$''" using x by (auto simp: lower_name_def)
  have hd: "?f (hd tab) = hd tab" using ok nx by (auto simp: table_ok_def)
  have names: "map name (map ?f tab) = map name tab" by (simp add: comp_def)
  have ne: "tab \<noteq> []" using ok by (simp add: table_ok_def)
  have 1: "name (hd (map ?f tab)) = ''$'' \<and> typ_sym (hd (map ?f tab)) = NONTERMINAL"
    using ok ne hd by (simp add: hd_map table_ok_def)
  have 2: "list_all sym_ok (tl (map ?f tab))"
    using ok x by (auto simp: table_ok_def list_all_iff map_tl[symmetric] sym_ok_def upper_name_def lower_name_def)
  have fixT: "\<And>t. t \<in> set tab \<Longrightarrow> typ_sym t = TERMINAL \<Longrightarrow> ?f t = t"
  proof -
    fix t assume t: "t \<in> set tab" "typ_sym t = TERMINAL"
    have "name t \<noteq> x"
    proof (cases "t = hd tab")
      case True then show ?thesis using ok t by (simp add: table_ok_def)
    next
      case False
      then have "t \<in> set (tl tab)" using t ne by (cases tab) auto
      then have "sym_ok t" using ok by (auto simp: table_ok_def list_all_iff)
      then show ?thesis using t x by (auto simp: sym_ok_def upper_name_def lower_name_def)
    qed
    then show "?f t = t" by simp
  qed
  have 3: "list_all (\<lambda>s. list_all (\<lambda>c. list_ex (\<lambda>t. name t = c \<and> typ_sym t = TERMINAL) (map ?f tab)) (subsym s)) (map ?f tab)"
    unfolding list_all_iff list_ex_iff
  proof (intro ballI)
    fix s c assume s: "s \<in> set (map ?f tab)" and c: "c \<in> set (subsym s)"
    then obtain s0 where s0: "s0 \<in> set tab" "s = ?f s0" by auto
    then have "c \<in> set (subsym s0)" using c by (auto split: if_splits)
    then have "\<exists>t\<in>set tab. name t = c \<and> typ_sym t = TERMINAL"
      using ok s0 by (auto simp: table_ok_def list_all_iff list_ex_iff)
    then obtain t where t: "t \<in> set tab" "name t = c" "typ_sym t = TERMINAL"
      by blast
    then have eq: "?f t = t" using fixT by blast
    have "?f t \<in> ?f ` set tab" using t(1) by (rule imageI)
    with eq have "t \<in> ?f ` set tab" by (rule subst)
    then have "t \<in> set (map ?f tab)" by (simp only: set_map)
    then show "\<exists>t\<in>set (map ?f tab). name t = c \<and> typ_sym t = TERMINAL" using t by blast
  qed
  have 4: "distinct (map name (map ?f tab))"
    using ok by (simp only: names table_ok_def)
  show ?thesis
    unfolding table_ok_def using 1 2 3 4 ne by simp
qed

lemma table_ok_add_subsym:
  assumes ok: "table_ok tab" and c: "c \<noteq> ''$''"
    and y: "list_ex (\<lambda>t. name t = y \<and> typ_sym t = TERMINAL) tab"
  shows "table_ok (add_subsym c y tab)"
proof -
  let ?f = "\<lambda>s. if name s = c then s\<lparr>subsym := subsym s @ [y]\<rparr> else s"
  have ne: "tab \<noteq> []" using ok by (simp add: table_ok_def)
  have hd: "?f (hd tab) = hd tab" using ok c by (auto simp: table_ok_def)
  have names: "map name (map ?f tab) = map name tab" by (simp add: comp_def)
  have 1: "name (hd (map ?f tab)) = ''$'' \<and> typ_sym (hd (map ?f tab)) = NONTERMINAL"
    using ok ne hd by (simp add: hd_map table_ok_def)
  have 2: "list_all sym_ok (tl (map ?f tab))"
    using ok by (auto simp: table_ok_def list_all_iff map_tl[symmetric] sym_ok_def)
  have keep: "list_ex (\<lambda>t. name t = c' \<and> typ_sym t = TERMINAL) (map ?f tab)"
    if "list_ex (\<lambda>t. name t = c' \<and> typ_sym t = TERMINAL) tab" for c'
  proof -
    have "\<exists>t\<in>set tab. name t = c' \<and> typ_sym t = TERMINAL"
      using that by (simp add: list_ex_iff)
    then obtain t where t: "t \<in> set tab" "name t = c'" "typ_sym t = TERMINAL"
      by blast
    have "?f t \<in> set (map ?f tab)" using t(1) by simp
    moreover have "name (?f t) = c' \<and> typ_sym (?f t) = TERMINAL" using t by simp
    ultimately show ?thesis unfolding list_ex_iff by blast
  qed
  have 3: "list_all (\<lambda>s. list_all (\<lambda>c. list_ex (\<lambda>t. name t = c \<and> typ_sym t = TERMINAL) (map ?f tab)) (subsym s)) (map ?f tab)"
    unfolding list_all_iff
  proof (intro ballI)
    fix s c' assume s: "s \<in> set (map ?f tab)" and c': "c' \<in> set (subsym s)"
    then obtain s0 where s0: "s0 \<in> set tab" "s = ?f s0" by auto
    then have "c' \<in> set (subsym s0) \<or> c' = y" using c' by (auto split: if_splits)
    then have "list_ex (\<lambda>t. name t = c' \<and> typ_sym t = TERMINAL) tab"
      using ok s0 y by (auto simp: table_ok_def list_all_iff)
    then show "list_ex (\<lambda>t. name t = c' \<and> typ_sym t = TERMINAL) (map ?f tab)" by (rule keep)
  qed
  have 4: "distinct (map name (map ?f tab))"
    using ok by (simp only: names table_ok_def)
  show ?thesis
    unfolding table_ok_def add_subsym_def using 1 2 3 4 ne by simp
qed

lemma table_ok_append_token:
  assumes t: "ascii_tables letter up" and ok: "table_ok tab" and uy: "upper_name y"
    and Some: "Symbol_find tab c = Some msp" and mt: "typ_sym msp = MULTITERMINAL"
  shows "table_ok (add_subsym c y (Symbol_new up y tab))"
proof -
  have ok1: "table_ok (Symbol_new up y tab)" using table_ok_Symbol_new[OF t ok] uy by blast
  have msp: "msp \<in> set tab" "name msp = c" using Symbol_find_Some[OF Some] by auto
  have c: "c \<noteq> ''$''"
  proof
    assume "c = ''$''"
    then have "name msp = name (hd tab)" using msp ok by (simp add: table_ok_def)
    moreover have "hd tab \<in> set tab" using ok by (simp add: table_ok_def)
    ultimately have "msp = hd tab" using ok msp(1) by (auto simp: table_ok_def distinct_map inj_on_def)
    then show False using mt ok by (simp add: table_ok_def)
  qed
  obtain s where s: "s \<in> set (Symbol_new up y tab)" "name s = y"
    using Symbol_new_names[of up y tab] by (metis imageE insertI1)
  have "s \<noteq> hd (Symbol_new up y tab)"
    using ok1 s uy by (auto simp: table_ok_def upper_name_def)
  then have "s \<in> set (tl (Symbol_new up y tab))"
    using s(1) ok1 by (cases "Symbol_new up y tab") (auto simp: table_ok_def)
  then have "sym_ok s" using ok1 by (auto simp: table_ok_def list_all_iff)
  then have "typ_sym s = TERMINAL" using s uy by (auto simp: sym_ok_def upper_name_def lower_name_def)
  then have "list_ex (\<lambda>t. name t = y \<and> typ_sym t = TERMINAL) (Symbol_new up y tab)"
    using s by (auto simp: list_ex_iff)
  then show ?thesis using table_ok_add_subsym[OF ok1 c] by simp
qed

lemma table_ok_parseonetoken:
  assumes t: "ascii_tables letter up" and ok: "table_ok tab" and d: "decl_ascii d"
  shows "table_ok (fst (parseonetoken letter up d (tab, errs)))"
proof (cases d)
  case (Intern g x)
  then show ?thesis
    using ok d passes_ascii[OF t, of x g] table_ok_Symbol_new[OF t ok, of x] by auto
next
  case (TokenClass x)
  show ?thesis
  proof (cases "passes letter up Lower x \<and> Symbol_find tab x = None")
    case False
    then show ?thesis using TokenClass ok by auto
  next
    case True
    then have lx: "lower_name x" using passes_ascii[OF t, of x Lower] d TokenClass by simp
    have "table_ok (Symbol_new up x tab)" using table_ok_Symbol_new[OF t ok] lx by blast
    then show ?thesis using TokenClass True table_ok_retype[OF _ lx] by simp
  qed
next
  case (ClassToken c y)
  show ?thesis
  proof (cases "passes letter up Upper y")
    case False
    then show ?thesis using ClassToken ok by simp
  next
    case True
    then have uy: "upper_name y" using passes_ascii[OF t, of y Upper] d ClassToken by simp
    show ?thesis
    proof (cases "Symbol_find tab c")
      case None
      then show ?thesis using ClassToken True ok by simp
    next
      case (Some msp)
      show ?thesis
      proof (cases "typ_sym msp = MULTITERMINAL")
        case False
        then show ?thesis using ClassToken True Some ok by simp
      next
        case mt: True
        then show ?thesis
          using ClassToken True Some table_ok_append_token[OF t ok uy Some mt] by simp
      qed
    qed
  qed
next
  case (Compound c y)
  show ?thesis
  proof (cases "passes letter up Upper y")
    case False
    then show ?thesis using Compound ok by simp
  next
    case True
    then have uy: "upper_name y" using passes_ascii[OF t, of y Upper] d Compound by simp
    have ok1: "table_ok (Symbol_new up y tab)" using table_ok_Symbol_new[OF t ok] uy by blast
    show ?thesis
    proof (cases "Symbol_find tab c")
      case None
      then show ?thesis using Compound True ok by simp
    next
      case (Some msp)
      show ?thesis
      proof (cases "typ_sym msp = MULTITERMINAL")
        case False
        then show ?thesis using Compound True Some ok1 by (simp add: Let_def)
      next
        case mt: True
        then show ?thesis
          using Compound True Some table_ok_append_token[OF t ok uy Some mt] by (simp add: Let_def)
      qed
    qed
  qed
qed

lemma table_ok_fold:
  assumes t: "ascii_tables letter up"
  shows "table_ok (fst st) \<Longrightarrow> list_all decl_ascii ds
     \<Longrightarrow> table_ok (fst (fold (parseonetoken letter up) ds st))"
proof (induction ds arbitrary: st)
  case Nil
  then show ?case by simp
next
  case (Cons d ds)
  obtain tab errs where st: "st = (tab, errs)" by (cases st)
  have "table_ok (fst (parseonetoken letter up d st))"
    using table_ok_parseonetoken[OF t, of tab d errs] Cons.prems st by simp
  then show ?case using Cons.IH[of "parseonetoken letter up d st"] Cons.prems by simp
qed

lemma table_ok_start: "ascii_tables letter up \<Longrightarrow> table_ok (Symbol_new up ''$'' [])"
  by (simp add: table_ok_def Symbol_new_def Symbol_find_def firstRuneIsUpper_def ascii_tables_def)

lemma table_ok_Parse_symbols:
  assumes "ascii_tables letter up" "list_all decl_ascii ds"
  shows "table_ok (fst (Parse_symbols letter up ds))"
  unfolding Parse_symbols_def using table_ok_fold[OF assms(1) _ assms(2)] table_ok_start[OF assms(1)] by simp

lemma sort_insert_skip:
  "\<forall>a\<in>set as. \<not> lt x a \<Longrightarrow> sort_insert lt x (as @ bs) = as @ sort_insert lt x bs"
  by (induction as) auto

lemma sort_insert_here:
  "bs = [] \<or> lt x (hd bs) \<Longrightarrow> sort_insert lt x bs = x # bs"
  by (cases bs) auto

lemma sort_class_range: "sort_class s = 1 \<or> sort_class s = 2 \<or> sort_class s = 3"
  by (simp add: sort_class_def)

lemma Less_by_class:
  "index x < index y \<Longrightarrow> symbolSorter_Less x y \<longleftrightarrow> sort_class x \<le> sort_class y"
  by (auto simp: symbolSorter_Less_def Symbolcmpp_def Let_def)

lemma hd_filter_append:
  "filter P xs @ zs \<noteq> [] \<Longrightarrow> (\<forall>y\<in>set xs. P y \<longrightarrow> Q y) \<Longrightarrow> (zs \<noteq> [] \<Longrightarrow> Q (hd zs))
    \<Longrightarrow> Q (hd (filter P xs @ zs))"
  by (induction xs) auto

lemma sort_Sort_by_class:
  "sorted_wrt (\<lambda>a b. index a < index b) xs \<Longrightarrow>
     sort_Sort symbolSorter_Less xs =
       filter (\<lambda>s. sort_class s = 1) xs @ filter (\<lambda>s. sort_class s = 2) xs
         @ filter (\<lambda>s. sort_class s = 3) xs"
proof (induction xs)
  case Nil
  then show ?case by (simp add: sort_Sort_def)
next
  case (Cons x xs)
  let ?c1 = "filter (\<lambda>s. sort_class s = 1) xs"
  let ?c2 = "filter (\<lambda>s. sort_class s = 2) xs"
  let ?c3 = "filter (\<lambda>s. sort_class s = 3) xs"
  have lt: "\<And>y. y \<in> set xs \<Longrightarrow> symbolSorter_Less x y \<longleftrightarrow> sort_class x \<le> sort_class y"
    using Cons.prems Less_by_class by simp
  have IH: "sort_Sort symbolSorter_Less xs = ?c1 @ ?c2 @ ?c3"
    using Cons by simp
  have step: "sort_Sort symbolSorter_Less (x # xs) = sort_insert symbolSorter_Less x (?c1 @ ?c2 @ ?c3)"
    using IH by (simp add: sort_Sort_def)
  consider "sort_class x = 1" | "sort_class x = 2" | "sort_class x = 3"
    using sort_class_range by blast
  then show ?case
  proof cases
    case 1
    have "?c1 @ ?c2 @ ?c3 = [] \<or> symbolSorter_Less x (hd (?c1 @ ?c2 @ ?c3))"
    proof (cases "?c1 @ ?c2 @ ?c3 = []")
      case False
      then have "hd (?c1 @ ?c2 @ ?c3) \<in> set (?c1 @ ?c2 @ ?c3)" by (rule hd_in_set)
      then have h: "hd (?c1 @ ?c2 @ ?c3) \<in> set xs" by auto
      have "sort_class x \<le> sort_class (hd (?c1 @ ?c2 @ ?c3))"
        using 1 sort_class_range[of "hd (?c1 @ ?c2 @ ?c3)"] by auto
      then show ?thesis using lt[OF h] by simp
    qed simp
    then show ?thesis using step 1 by (simp add: sort_insert_here)
  next
    case 2
    have skip: "\<forall>a\<in>set ?c1. \<not> symbolSorter_Less x a" using lt 2 by auto
    have "?c2 @ ?c3 = [] \<or> symbolSorter_Less x (hd (?c2 @ ?c3))"
    proof (cases "?c2 @ ?c3 = []")
      case False
      then have "hd (?c2 @ ?c3) \<in> set (?c2 @ ?c3)" by (rule hd_in_set)
      then have h: "hd (?c2 @ ?c3) \<in> set xs" and "2 \<le> sort_class (hd (?c2 @ ?c3))" by auto
      then show ?thesis using lt[OF h] 2 by simp
    qed simp
    then have "sort_insert symbolSorter_Less x (?c2 @ ?c3) = x # ?c2 @ ?c3"
      by (rule sort_insert_here)
    then show ?thesis
      using step 2 sort_insert_skip[where lt = symbolSorter_Less and x = x and as = "?c1" and bs = "?c2 @ ?c3"] skip
      by simp
  next
    case 3
    have skip: "\<forall>a\<in>set (?c1 @ ?c2). \<not> symbolSorter_Less x a" using lt 3 by auto
    have "?c3 = [] \<or> symbolSorter_Less x (hd ?c3)"
    proof (cases "?c3 = []")
      case False
      then have "hd ?c3 \<in> set ?c3" by (rule hd_in_set)
      then have h: "hd ?c3 \<in> set xs" and "3 \<le> sort_class (hd ?c3)" by auto
      then show ?thesis using lt[OF h] 3 by simp
    qed simp
    then have "sort_insert symbolSorter_Less x ?c3 = x # ?c3"
      by (rule sort_insert_here)
    then show ?thesis
      using step 3 sort_insert_skip[where lt = symbolSorter_Less and x = x and as = "?c1 @ ?c2" and bs = "?c3"] skip
      by simp
  qed
qed

lemma reindex_length [simp]: "length (reindex xs) = length xs"
  by (simp add: reindex_def)

lemma reindex_nth: "i < length xs \<Longrightarrow> reindex xs ! i = (xs ! i)\<lparr>index := int i\<rparr>"
  by (simp add: reindex_def nth_enumerate_eq)

lemma reindex_sorted: "sorted_wrt (\<lambda>a b. index a < index b) (reindex xs)"
  by (simp add: sorted_wrt_iff_nth_less reindex_nth)

lemma slice_get_nat: "i < length zs \<Longrightarrow> slice_get zs (int i) = Inr (zs ! i)"
  by (simp add: slice_get_def)

lemma skip_multi_result:
  assumes a: "0 < a" "a \<le> length zs" "typ_sym (zs ! (a - 1)) \<noteq> MULTITERMINAL"
    and m: "\<forall>i. a \<le> i \<and> i < length zs \<longrightarrow> typ_sym (zs ! i) = MULTITERMINAL"
  shows "a + k \<le> length zs \<Longrightarrow> skip_multi zs (int (a + k)) = Inr (int a)"
proof (induction k)
  case 0
  have e: "int (a + 0) - 1 = int (a - 1)" using a by simp
  have "slice_get zs (int (a - 1)) = Inr (zs ! (a - 1))"
    using a by (intro slice_get_nat) simp
  then show ?case using a by (subst skip_multi.simps) (simp only: e, simp)
next
  case (Suc k)
  have e: "int (a + Suc k) - 1 = int (a + k)" by simp
  have "slice_get zs (int (a + k)) = Inr (zs ! (a + k))"
    using Suc.prems by (intro slice_get_nat) simp
  moreover have "typ_sym (zs ! (a + k)) = MULTITERMINAL" using m Suc.prems by simp
  ultimately show ?case using Suc by (subst skip_multi.simps) (simp only: e, simp)
qed

lemma count_upper_result:
  assumes b: "1 \<le> b" "b < length zs" "\<not> firstRuneIsUpper up (name (zs ! b))"
    and u: "\<forall>i. 1 \<le> i \<and> i < b \<longrightarrow> firstRuneIsUpper up (name (zs ! i))"
  shows "k < b \<Longrightarrow> count_upper up zs (int (b - k)) = Inr (int b)"
proof (induction k)
  case 0
  have "slice_get zs (int b) = Inr (zs ! b)" using b by (intro slice_get_nat) simp
  then show ?case using b by (subst count_upper.simps) simp
next
  case (Suc k)
  have e: "int (b - Suc k) + 1 = int (b - k)" using Suc.prems by simp
  have "slice_get zs (int (b - Suc k)) = Inr (zs ! (b - Suc k))"
    using b Suc.prems by (intro slice_get_nat) simp
  moreover have "firstRuneIsUpper up (name (zs ! (b - Suc k)))" using u Suc.prems by simp
  ultimately show ?case using Suc by (subst count_upper.simps) (simp only: e, simp)
qed

lemma sort_class_core: "sort_class s = sc (core s)"
  by (simp add: sort_class_def sc_def core_def)

lemma core_reindex: "map core (reindex zs) = map core zs"
  by (rule nth_equalityI) (simp_all add: reindex_nth core_def)

lemma core_filter:
  "map core (filter (\<lambda>s. sort_class s = k) zs) = filter (\<lambda>c. sc c = k) (map core zs)"
  by (simp add: filter_map comp_def sort_class_core)

lemma core_sorted:
  "map core (reindex (sort_Sort symbolSorter_Less (reindex zs))) =
     filter (\<lambda>c. sc c = 1) (map core zs) @ filter (\<lambda>c. sc c = 2) (map core zs)
       @ filter (\<lambda>c. sc c = 3) (map core zs)"
  by (simp add: core_reindex sort_Sort_by_class[OF reindex_sorted] core_filter)

lemma Symbol_new_default:
  assumes t: "ascii_tables letter up" and ok: "table_ok tab"
  shows "Symbol_new up ''{default}'' tab =
     tab @ [\<lparr>name = ''{default}'', index = 0, typ_sym = NONTERMINAL, prec = - 1, assoc = UNK, subsym = []\<rparr>]"
proof -
  have nd: "s \<in> set tab \<Longrightarrow> name s \<noteq> ''{default}''" for s
  proof (cases "s = hd tab")
    case True
    then show ?thesis using ok by (simp add: table_ok_def)
  next
    case False
    assume "s \<in> set tab"
    then have "s \<in> set (tl tab)" using False by (cases tab) auto
    then have "sym_ok s" using ok by (auto simp: table_ok_def list_all_iff)
    then show ?thesis by (auto simp: sym_ok_def upper_name_def lower_name_def)
  qed
  have "''{default}'' \<notin> name ` set tab"
  proof
    assume "''{default}'' \<in> name ` set tab"
    then obtain s where s: "s \<in> set tab" "name s = ''{default}''" by (auto simp: image_iff)
    show False using nd[OF s(1)] s(2) by simp
  qed
  then have "Symbol_find tab ''{default}'' = None" by (simp add: Symbol_find_None)
  moreover have "\<not> firstRuneIsUpper up ''{default}''"
    using t by (simp add: firstRuneIsUpper_def ascii_tables_def)
  ultimately show ?thesis by (simp add: Symbol_new_def)
qed

lemma five_nth:
  assumes "L = [a] @ A @ B @ [d] @ C" and "i < length L"
  shows "i = 0 \<Longrightarrow> L ! i = a"
    and "1 \<le> i \<Longrightarrow> i < 1 + length A \<Longrightarrow> L ! i \<in> set A"
    and "1 + length A \<le> i \<Longrightarrow> i < 1 + length A + length B \<Longrightarrow> L ! i \<in> set B"
    and "i = 1 + length A + length B \<Longrightarrow> L ! i = d"
    and "1 + length A + length B < i \<Longrightarrow> L ! i \<in> set C"
proof -
  show "i = 0 \<Longrightarrow> L ! i = a" using assms by simp
  show "1 \<le> i \<Longrightarrow> i < 1 + length A \<Longrightarrow> L ! i \<in> set A"
  proof -
    assume h: "1 \<le> i" "i < 1 + length A"
    then have "L ! i = A ! (i - 1)" using assms by (auto simp: nth_append nth_Cons')
    moreover have "i - 1 < length A" using h by simp
    ultimately show ?thesis by simp
  qed
  show "1 + length A \<le> i \<Longrightarrow> i < 1 + length A + length B \<Longrightarrow> L ! i \<in> set B"
  proof -
    assume h: "1 + length A \<le> i" "i < 1 + length A + length B"
    then have "L ! i = B ! (i - 1 - length A)" using assms by (auto simp: nth_append nth_Cons')
    moreover have "i - 1 - length A < length B" using h by simp
    ultimately show ?thesis by simp
  qed
  show "i = 1 + length A + length B \<Longrightarrow> L ! i = d"
    using assms by (auto simp: nth_append nth_Cons')
  show "1 + length A + length B < i \<Longrightarrow> L ! i \<in> set C"
  proof -
    assume h: "1 + length A + length B < i"
    then have "L ! i = C ! (i - 1 - length A - length B - 1)"
      using assms by (auto simp: nth_append nth_Cons')
    moreover have "i - 1 - length A - length B - 1 < length C" using h assms by simp
    ultimately show ?thesis by simp
  qed
qed

lemma kok_sc1: "kok c \<Longrightarrow> sc c = 1 \<Longrightarrow> upper_name (fst c) \<and> fst (snd c) = TERMINAL"
  by (cases c) (auto simp: kok_def sc_def upper_name_def lower_name_def split: if_splits)

lemma kok_sc2: "kok c \<Longrightarrow> sc c = 2 \<Longrightarrow> lower_name (fst c) \<and> fst (snd c) = NONTERMINAL"
  by (cases c, cases "fst (snd c)")
     (auto simp: kok_def sc_def upper_name_def lower_name_def split: if_splits)

lemma sc3: "sc c = 3 \<Longrightarrow> fst (snd c) = MULTITERMINAL"
  by (cases c) (auto simp: sc_def split: if_splits)

lemma filter_sc_length:
  "length (filter (\<lambda>c. sc c = 1) R) + length (filter (\<lambda>c. sc c = 2) R)
     + length (filter (\<lambda>c. sc c = 3) R) = length R"
proof (induction R)
  case Nil
  then show ?case by simp
next
  case (Cons c R)
  have "sc c = 1 \<or> sc c = 2 \<or> sc c = 3" by (cases c) (simp add: sc_def)
  then show ?case using Cons by auto
qed

lemma filter_sc_set:
  "set (filter (\<lambda>c. sc c = 1) R) \<union> set (filter (\<lambda>c. sc c = 2) R)
     \<union> set (filter (\<lambda>c. sc c = 3) R) = set R"
proof -
  have "sc c = 1 \<or> sc c = 2 \<or> sc c = 3" for c by (cases c) (simp add: sc_def)
  then show ?thesis by auto
qed

lemma index_symbols_ascii:
  assumes t: "ascii_tables letter up" and ok: "table_ok tab"
  shows "\<exists>syms ns nt. index_symbols up tab = Inr (syms, ns, nt) \<and> numbered syms ns nt
           \<and> length syms = length tab + 1
           \<and> set (map name syms) = insert ''{default}'' (set (map name tab))"
proof -
  define dflt where "dflt = \<lparr>name = ''{default}'', index = 0, typ_sym = NONTERMINAL, prec = - 1,
    assoc = UNK, subsym = []\<rparr>"
  define syms where "syms = reindex (sort_Sort symbolSorter_Less (reindex (tab @ [dflt])))"
  obtain s0 rest where tab: "tab = s0 # rest" using ok by (cases tab) (auto simp: table_ok_def)
  define a where "a = core s0"
  define d where "d = core dflt"
  define R where "R = map core rest"
  define A where "A = filter (\<lambda>c. sc c = 1) R"
  define B where "B = filter (\<lambda>c. sc c = 2) R"
  define C where "C = filter (\<lambda>c. sc c = 3) R"
  define nt where "nt = 1 + length A"
  define ns where "ns = 1 + length A + length B"
  let ?L = "[a] @ A @ B @ [d] @ C"
  have s0: "name s0 = ''$''" "typ_sym s0 = NONTERMINAL"
    using ok tab by (auto simp: table_ok_def)
  have a: "fst a = ''$''" "fst (snd a) = NONTERMINAL" by (simp_all add: a_def core_def s0)
  have d: "d = (''{default}'', NONTERMINAL, [])" by (simp add: d_def dflt_def core_def)
  have sca: "sc a = 1" by (simp add: a_def core_def sc_def s0)
  have scd: "sc d = 2" by (simp add: d sc_def)
  have K: "map core (tab @ [dflt]) = a # R @ [d]" by (simp add: tab a_def d_def R_def)
  have L: "map core syms = ?L"
    unfolding syms_def core_sorted K by (simp add: A_def B_def C_def sca scd)
  have Rok: "\<forall>c\<in>set R. kok c"
    using ok tab by (auto simp: table_ok_def list_all_iff R_def kok_def core_def sym_ok_def)
  have Aok: "\<forall>c\<in>set A. upper_name (fst c) \<and> fst (snd c) = TERMINAL"
    using Rok kok_sc1 by (auto simp: A_def)
  have Bok: "\<forall>c\<in>set B. lower_name (fst c) \<and> fst (snd c) = NONTERMINAL"
    using Rok kok_sc2 by (auto simp: B_def)
  have Cok: "\<forall>c\<in>set C. fst (snd c) = MULTITERMINAL"
    using sc3 by (auto simp: C_def)
  have lenR: "length A + length B + length C = length R"
    unfolding A_def B_def C_def by (rule filter_sc_length)
  have setR: "set A \<union> set B \<union> set C = set R"
    unfolding A_def B_def C_def by (rule filter_sc_set)
  have lenL: "length syms = length ?L" using L by (metis length_map)
  then have len: "length syms = ns + 1 + length C" by (simp add: ns_def)
  have lentab: "length syms = length tab + 1"
    using len lenR by (simp add: ns_def tab R_def)
  have cr: "core (syms ! i) = ?L ! i" if "i < length syms" for i
    using L that by (metis nth_map)
  have nm: "name s = fst (core s)" and ty: "typ_sym s = fst (snd (core s))"
    and sb: "subsym s = snd (snd (core s))" for s
    by (simp_all add: core_def)
  note five = five_nth[OF refl, of _ a A B d C]
  have i0: "core (syms ! 0) = a" using cr[of 0] len by simp
  have iA: "core (syms ! i) \<in> set A" if "1 \<le> i" "i < nt" for i
    using five(2)[of i] that cr[of i] len by (simp add: nt_def ns_def)
  have iB: "core (syms ! i) \<in> set B" if "nt \<le> i" "i < ns" for i
    using five(3)[of i] that cr[of i] len by (simp add: nt_def ns_def)
  have iD: "core (syms ! ns) = d"
    using five(4)[of ns] cr[of ns] len by (simp add: nt_def ns_def)
  have iC: "core (syms ! i) \<in> set C" if "ns < i" "i < length syms" for i
    using five(5)[of i] that cr[of i] len by (simp add: nt_def ns_def)
  have typs: "typ_sym (syms ! i) =
      (if i = 0 then NONTERMINAL else if i < nt then TERMINAL else if i \<le> ns then NONTERMINAL
       else MULTITERMINAL)" if "i < length syms" for i
  proof -
    consider "i = 0" | "1 \<le> i" "i < nt" | "nt \<le> i" "i < ns" | "i = ns" | "ns < i"
      by linarith
    then show ?thesis
    proof cases
      case 1 then show ?thesis using i0 a by (simp add: ty)
    next
      case 2 then show ?thesis using iA[of i] Aok by (auto simp: ty)
    next
      case 3 then show ?thesis using iB[of i] Bok by (auto simp: ty nt_def)
    next
      case 4 then show ?thesis using iD d by (simp add: ty nt_def ns_def)
    next
      case 5 then show ?thesis using iC[of i] Cok that by (auto simp: ty nt_def ns_def)
    qed
  qed
  have idx: "index (syms ! i) = int i" if "i < length syms" for i
    using that by (simp add: syms_def reindex_nth)
  have nup: "\<not> firstRuneIsUpper up (name (syms ! nt))"
  proof (cases "nt < ns")
    case True
    then have "lower_name (name (syms ! nt))" using iB[of nt] Bok by (auto simp: nm)
    then show ?thesis using firstRuneIsUpper_ascii(2)[OF t] by blast
  next
    case False
    then have "nt = ns" by (simp add: nt_def ns_def)
    then have "name (syms ! nt) = ''{default}''" using iD d by (simp add: nm)
    then show ?thesis using t by (simp add: firstRuneIsUpper_def ascii_tables_def)
  qed
  have upA: "\<forall>i. 1 \<le> i \<and> i < nt \<longrightarrow> firstRuneIsUpper up (name (syms ! i))"
  proof (intro allI impI)
    fix i assume "1 \<le> i \<and> i < nt"
    then have "upper_name (name (syms ! i))" using iA[of i] Aok by (auto simp: nm)
    then show "firstRuneIsUpper up (name (syms ! i))" using firstRuneIsUpper_ascii(1)[OF t] by blast
  qed
  have skip: "skip_multi syms (int (length syms)) = Inr (int (ns + 1))"
  proof -
    have "skip_multi syms (int ((ns + 1) + length C)) = Inr (int (ns + 1))"
    proof (rule skip_multi_result)
      show "0 < ns + 1" by simp
      show "ns + 1 \<le> length syms" using len by simp
      show "typ_sym (syms ! (ns + 1 - 1)) \<noteq> MULTITERMINAL" using typs[of ns] len by (simp add: nt_def ns_def)
      show "\<forall>i. ns + 1 \<le> i \<and> i < length syms \<longrightarrow> typ_sym (syms ! i) = MULTITERMINAL"
        using typs by (auto simp: nt_def ns_def)
      show "ns + 1 + length C \<le> length syms" using len by simp
    qed
    then show ?thesis using len by simp
  qed
  have dflt_at: "slice_get syms (int (ns + 1) - 1) = Inr (syms ! ns)"
    using slice_get_nat[of ns syms] len by simp
  have dname: "name (syms ! ns) = ''{default}''" using iD d by (simp add: nm)
  have cnt: "count_upper up syms 1 = Inr (int nt)"
  proof -
    have "count_upper up syms (int (nt - (nt - 1))) = Inr (int nt)"
    proof (rule count_upper_result)
      show "1 \<le> nt" by (simp add: nt_def)
      show "nt < length syms" using len by (simp add: nt_def ns_def)
      show "\<not> firstRuneIsUpper up (name (syms ! nt))" by (rule nup)
      show "\<forall>i. 1 \<le> i \<and> i < nt \<longrightarrow> firstRuneIsUpper up (name (syms ! i))" by (rule upA)
      show "nt - 1 < nt" by (simp add: nt_def)
    qed
    then show ?thesis by (simp add: nt_def)
  qed
  have run: "index_symbols up tab = Inr (syms, int ns, int nt)"
    unfolding index_symbols_def Symbol_new_default[OF t ok] Let_def Symbol_count_def
    using skip dflt_at dname cnt lentab
    by (simp add: syms_def[symmetric] dflt_def[symmetric])
  have setL: "set (map core syms) = insert a (insert d (core ` set rest))"
    unfolding L using setR by (auto simp: R_def)
  have sub: "\<exists>j. 1 \<le> int j \<and> int j < int nt \<and> name (syms ! j) = c"
    if i: "i < length syms" and c: "c \<in> set (subsym (syms ! i))" for i c
  proof -
    have "core (syms ! i) \<in> set (map core syms)" using i by simp
    then have "core (syms ! i) \<in> core ` set tab \<or> core (syms ! i) = d"
      unfolding setL by (auto simp: tab a_def)
    moreover have "core (syms ! i) \<noteq> d" using c d by (auto simp: sb)
    ultimately obtain s where s: "s \<in> set tab" "core s = core (syms ! i)" by auto
    then have "c \<in> set (subsym s)" using c by (simp add: sb)
    then have "\<exists>u\<in>set tab. name u = c \<and> typ_sym u = TERMINAL"
      using ok s(1) by (auto simp: table_ok_def list_all_iff list_ex_iff)
    then obtain u where u: "u \<in> set tab" "name u = c" "typ_sym u = TERMINAL" by blast
    have "core u \<in> set (map core syms)"
      unfolding setL using u(1) by (auto simp: tab a_def)
    then obtain j where j: "j < length syms" "core (syms ! j) = core u"
      by (auto simp: in_set_conv_nth)
    have "typ_sym (syms ! j) = TERMINAL" using j u by (simp add: ty)
    then have "1 \<le> j \<and> j < nt" using typs[OF j(1)] by (auto split: if_splits)
    moreover have "name (syms ! j) = c" using j u by (simp add: nm)
    ultimately show ?thesis by auto
  qed
  have num: "numbered syms (int ns) (int nt)"
    unfolding numbered_def
  proof (intro conjI allI impI ballI)
    show "1 \<le> int nt" by (simp add: nt_def)
    show "int nt \<le> int ns" by (simp add: nt_def ns_def)
    show "int ns < int (length syms)" using len by simp
    show "\<And>i. i < length syms \<Longrightarrow> index (syms ! i) = int i" by (rule idx)
    show "name (syms ! 0) = ''$''" using i0 a by (simp add: nm)
    show "name (syms ! nat (int ns)) = ''{default}''" using dname by simp
    show "\<And>i. i < length syms \<Longrightarrow> typ_sym (syms ! i) = TERMINAL \<longleftrightarrow> 1 \<le> int i \<and> int i < int nt"
      using typs by (auto simp: nt_def)
    show "\<And>i. i < length syms \<Longrightarrow> typ_sym (syms ! i) = MULTITERMINAL \<longleftrightarrow> int ns < int i"
      using typs by (auto simp: nt_def ns_def)
    show "\<And>i c. i < length syms \<Longrightarrow> c \<in> set (subsym (syms ! i)) \<Longrightarrow>
        \<exists>j. 1 \<le> int j \<and> int j < int nt \<and> name (syms ! j) = c"
      by (rule sub)
  qed
  have names: "set (map name syms) = insert ''{default}'' (set (map name tab))"
  proof -
    have "set (map name syms) = fst ` set (map core syms)"
      by (simp add: image_image core_def)
    also have "\<dots> = insert ''{default}'' (fst ` core ` set tab)"
      unfolding setL by (auto simp: tab a_def d)
    also have "fst ` core ` set tab = set (map name tab)" by (simp add: image_image core_def)
    finally show ?thesis .
  qed
  show ?thesis using run num lentab names by blast
qed

lemma Less_iff:
  "symbolSorter_Less a b \<longleftrightarrow>
     sort_class a < sort_class b \<or> sort_class a = sort_class b \<and> index a < index b"
  by (auto simp: symbolSorter_Less_def Symbolcmpp_def Let_def)

lemma sorted_wrt_strict_unique:
  assumes tr: "\<And>a b c. R a b \<Longrightarrow> R b c \<Longrightarrow> R a c" and irr: "\<And>a. \<not> R a a"
  shows "sorted_wrt R ys \<Longrightarrow> sorted_wrt R zs \<Longrightarrow> set ys = set zs \<Longrightarrow> ys = zs"
proof (induction ys arbitrary: zs)
  case Nil
  then show ?case by simp
next
  case (Cons y ys)
  then obtain z zs' where zs: "zs = z # zs'" by (cases zs) auto
  have yz: "y = z"
  proof (rule ccontr)
    assume ne: "y \<noteq> z"
    have "y \<in> set zs'" using Cons.prems(3) zs ne by auto
    then have 1: "R z y" using Cons.prems(2) zs by auto
    have "z \<in> set ys" using Cons.prems(3) zs ne by auto
    then have 2: "R y z" using Cons.prems(1) by auto
    show False using tr[OF 1 2] irr by blast
  qed
  have "y \<notin> set ys" using Cons.prems(1) irr by auto
  moreover have "z \<notin> set zs'" using Cons.prems(2) zs irr by auto
  ultimately have "set ys = set zs'" using Cons.prems(3) zs yz by auto
  then have "ys = zs'" using Cons.IH[of zs'] Cons.prems zs by simp
  then show ?case using zs yz by simp
qed

lemma sort_Sort_sorted:
  assumes "sorted_wrt (\<lambda>a b. index a < index b) xs"
  shows "sorted_wrt symbolSorter_Less (sort_Sort symbolSorter_Less xs)"
proof -
  have f: "sorted_wrt symbolSorter_Less (filter (\<lambda>s. sort_class s = k) xs)" for k
  proof -
    have "sorted_wrt (\<lambda>a b. index a < index b) (filter (\<lambda>s. sort_class s = k) xs)"
      using assms by (rule sorted_wrt_filter)
    then show ?thesis
      by (rule sorted_wrt_mono_rel[rotated]) (auto simp: Less_iff)
  qed
  show ?thesis
    unfolding sort_Sort_by_class[OF assms]
    using f[of 1] f[of 2] f[of 3] by (auto simp: sorted_wrt_append Less_iff)
qed

text \<open>
  Every permutation of the array that is in the order of \<open>Less\<close> is the list that the
  sort by insertion returns: the result of \<^verbatim>\<open>sort.Sort\<close> does not depend on the algorithm.
\<close>

lemma sort_Sort_unique:
  assumes xs: "sorted_wrt (\<lambda>a b. index a < index b) xs"
    and perm: "set ys = set xs" "length ys = length xs"
    and sorted: "sorted_wrt (\<lambda>a b. \<not> symbolSorter_Less b a) ys"
  shows "ys = sort_Sort symbolSorter_Less xs"
proof -
  have dx: "distinct (map index xs)"
    using xs by (induction xs) auto
  then have "distinct xs" by (simp add: distinct_map)
  then have "card (set ys) = length ys" using perm by (simp add: distinct_card)
  then have dy: "distinct ys" by (rule card_distinct)
  have inj: "inj_on index (set xs)" using dx by (simp add: distinct_map)
  have "sorted_wrt symbolSorter_Less ys"
    unfolding sorted_wrt_iff_nth_less
  proof (intro allI impI)
    fix i j assume ij: "i < j" "j < length ys"
    have "ys ! i \<noteq> ys ! j" using dy ij by (simp add: nth_eq_iff_index_eq)
    moreover have "ys ! i \<in> set xs" "ys ! j \<in> set xs" using ij perm(1) nth_mem[of i ys] nth_mem[of j ys] by auto
    ultimately have "index (ys ! i) \<noteq> index (ys ! j)" using inj by (auto simp: inj_on_def)
    moreover have "\<not> symbolSorter_Less (ys ! j) (ys ! i)"
      using sorted ij by (simp add: sorted_wrt_iff_nth_less)
    ultimately show "symbolSorter_Less (ys ! i) (ys ! j)" by (auto simp: Less_iff)
  qed
  moreover have "sorted_wrt symbolSorter_Less (sort_Sort symbolSorter_Less xs)"
    using xs by (rule sort_Sort_sorted)
  moreover have "set ys = set (sort_Sort symbolSorter_Less xs)"
    using perm(1) sort_class_range by (auto simp: sort_Sort_by_class[OF xs])
  ultimately show ?thesis
    by (rule sorted_wrt_strict_unique[rotated 2]) (auto simp: Less_iff)
qed

text \<open>
  For every grammar whose symbol names begin with ASCII characters, the numbering returns
  and the array has the layout \<open>numbered\<close>.
\<close>

lemma Parse_symbols_numbered:
  assumes "ascii_tables letter up" and "list_all decl_ascii ds"
  shows "\<exists>syms ns nt. index_symbols up (fst (Parse_symbols letter up ds)) = Inr (syms, ns, nt)
           \<and> numbered syms ns nt"
  using index_symbols_ascii[OF assms(1) table_ok_Parse_symbols[OF assms]] by blast

text \<open>A compound that starts with a nonterminal is an error.\<close>

lemma grammar_compound_error:
  "map_prod (map (\<lambda>s. (name s, typ_sym s, subsym s))) id
     (Parse_symbols IsLetter_Latin1 IsUpper_Latin1 grammar_compound)
   = ([(''$'', NONTERMINAL, []), (''a'', NONTERMINAL, []), (''b'', NONTERMINAL, []),
       (''C'', TERMINAL, [])], 1)"
  by code_simp

lemma grammar_ascii_numbered:
  "shape (index_symbols IsUpper_Latin1 (fst (Parse_symbols IsLetter_Latin1 IsUpper_Latin1 grammar_ascii)))
     = Inr ([(''$'', 0, NONTERMINAL, []), (''PLUS'', 1, TERMINAL, []), (''INT'', 2, TERMINAL, []),
             (''FLOAT'', 3, TERMINAL, []), (''expr'', 4, NONTERMINAL, []),
             (''{default}'', 5, NONTERMINAL, []), (''num'', 6, MULTITERMINAL, [''INT'', ''FLOAT''])],
            5, 4)"
  by code_simp


section \<open>Properties of the sets of terminal indices\<close>

lemma SetUnion_range_result:
  "SetUnion_range ks s1 s2 progress =
     ((\<lambda>k. if k \<in> set ks \<and> SetFind s2 k \<and> \<not> SetFind s1 k then Some True else s1 k),
      progress \<or> (\<exists>k \<in> set ks. SetFind s2 k \<and> \<not> SetFind s1 k))"
proof (induction ks arbitrary: s1 progress)
  case Nil
  then show ?case by simp
next
  case (Cons k ks)
  show ?case
  proof (cases "SetFind s2 k \<and> \<not> SetFind s1 k")
    case False
    then show ?thesis using Cons.IH[of s1 progress] by (auto simp: fun_eq_iff)
  next
    case True
    have "SetUnion_range (k # ks) s1 s2 progress = SetUnion_range ks (s1(k \<mapsto> True)) s2 True"
      using True by simp
    also have "\<dots> = ((\<lambda>k'. if k' \<in> set ks \<and> SetFind s2 k' \<and> \<not> SetFind (s1(k \<mapsto> True)) k'
                           then Some True else (s1(k \<mapsto> True)) k'), True)"
      by (simp only: Cons.IH simp_thms)
    also have "\<dots> = ((\<lambda>k'. if k' \<in> set (k # ks) \<and> SetFind s2 k' \<and> \<not> SetFind s1 k'
                           then Some True else s1 k'),
                      progress \<or> (\<exists>k' \<in> set (k # ks). SetFind s2 k' \<and> \<not> SetFind s1 k'))"
      using True by (auto simp: fun_eq_iff SetFind_def)
    finally show ?thesis .
  qed
qed

text \<open>Two iteration orders over the keys of \<open>s2\<close> give the same set and the same flag.\<close>

lemma SetUnion_order_independent:
  assumes "set order1 = dom s2" and "set order2 = dom s2"
  shows "SetUnion order1 s1 s2 = SetUnion order2 s1 s2"
  using assms by (simp add: SetUnion_def SetUnion_range_result)

lemma SetUnion_result:
  assumes "set order = dom s2"
  shows "SetFind (fst (SetUnion order s1 s2)) k = (SetFind s1 k \<or> SetFind s2 k)"
    and "snd (SetUnion order s1 s2) = (\<exists>k. SetFind s2 k \<and> \<not> SetFind s1 k)"
  using assms by (auto simp: SetUnion_def SetUnion_range_result SetFind_def dom_def split: option.splits)


section \<open>Claims about the action encoding\<close>

text \<open>
  C4, as stated in the specification: the first boundary is \<open>minShiftReduce = nxstate\<close>.
  The source assigns \<^verbatim>\<open>lemp.nstate\<close>; with three states of which one is stripped the
  two differ.
\<close>

theorem C4_minShiftReduce_not_nxstate:
  "minShiftReduce (ReportTable_boundaries lemon_stripped) \<noteq> nxstate lemon_stripped"
  by (simp add: ReportTable_boundaries_def lemon_stripped_def)

text \<open>
  C4, amended: the boundaries are \<open>minShiftReduce = nstate\<close> (the number of states before
  trailing auto-reduce states are stripped), \<open>errAction = minShiftReduce + nrule\<close>,
  \<open>accAction = errAction + 1\<close>, \<open>noAction = accAction + 1\<close>, \<open>minReduce = noAction + 1\<close>,
  \<open>maxAction = minReduce + nrule\<close>; and \<open>compute_action\<close> encodes a shift as the state
  number, a shift-reduce as \<open>minShiftReduce + iRule\<close> unless its lookahead has an
  index at or above \<open>nterminal\<close> (the test of the source for a nonterminal) and is not the
  error symbol, when it is \<open>minReduce + iRule\<close>, a reduce as
  \<open>minReduce + iRule\<close>, an error as \<open>errAction\<close> and an accept as \<open>accAction\<close>.
\<close>

theorem C4_action_encoding:
  fixes lemp :: lemon and a :: action
  defines "l \<equiv> ReportTable_boundaries lemp"
  shows "minShiftReduce l = nstate lemp
    \<and> errAction l = minShiftReduce l + nrule lemp
    \<and> accAction l = errAction l + 1
    \<and> noAction l = accAction l + 1
    \<and> minReduce l = noAction l + 1
    \<and> maxAction l = minReduce l + nrule lemp
    \<and> (typ_act a = SHIFT \<and> stp (x_union a) = Some n \<longrightarrow> compute_action l a = Inr n)
    \<and> (typ_act a = SHIFTREDUCE \<and> rp (x_union a) = Some r \<longrightarrow>
          compute_action l a =
            Inr (if index (sp a) \<ge> lemon.nterminal lemp
                    \<and> (\<forall>e. errsym lemp = Some e \<longrightarrow> index (sp a) \<noteq> index e)
                 then minReduce l + iRule r else minShiftReduce l + iRule r))
    \<and> (typ_act a = REDUCE \<and> rp (x_union a) = Some r \<longrightarrow>
          compute_action l a = Inr (minReduce l + iRule r))
    \<and> (typ_act a = ERROR \<longrightarrow> compute_action l a = Inr (errAction l))
    \<and> (typ_act a = ACCEPT \<longrightarrow> compute_action l a = Inr (accAction l))"
  unfolding l_def
  by (auto simp: ReportTable_boundaries_def compute_action_def Let_def split: option.splits)

theorem C4_action_encoding_witness:
  "compute_action (ReportTable_boundaries lemon_stripped)
     \<lparr>sp = sym_ex ''expr'' 3 NONTERMINAL, typ_act = SHIFTREDUCE,
      x_union = \<lparr>stp = None, rp = Some \<lparr>iRule = 1, precsym = None\<rparr>\<rparr>\<rparr> = Inr 9
   \<and> compute_action (ReportTable_boundaries lemon_stripped)
     \<lparr>sp = sym_ex ''PLUS'' 1 TERMINAL, typ_act = SHIFTREDUCE,
      x_union = \<lparr>stp = None, rp = Some \<lparr>iRule = 1, precsym = None\<rparr>\<rparr>\<rparr> = Inr 4
   \<and> compute_action (ReportTable_boundaries lemon_stripped)
     \<lparr>sp = sym_ex ''PLUS'' 1 TERMINAL, typ_act = SHIFT,
      x_union = \<lparr>stp = Some 2, rp = None\<rparr>\<rparr> = Inr 2
   \<and> compute_action (ReportTable_boundaries lemon_stripped)
     \<lparr>sp = sym_ex ''PLUS'' 1 TERMINAL, typ_act = REDUCE,
      x_union = \<lparr>stp = None, rp = Some \<lparr>iRule = 0, precsym = None\<rparr>\<rparr>\<rparr> = Inr 8
   \<and> compute_action (ReportTable_boundaries lemon_stripped)
     \<lparr>sp = sym_ex ''PLUS'' 1 TERMINAL, typ_act = ERROR,
      x_union = \<lparr>stp = None, rp = None\<rparr>\<rparr> = Inr 5
   \<and> compute_action (ReportTable_boundaries lemon_stripped)
     \<lparr>sp = sym_ex ''expr'' 3 NONTERMINAL, typ_act = ACCEPT,
      x_union = \<lparr>stp = None, rp = None\<rparr>\<rparr> = Inr 6"
  using
    C4_action_encoding [where lemp = lemon_stripped and r = "\<lparr>iRule = 1, precsym = None\<rparr>"
      and a = "\<lparr>sp = sym_ex ''expr'' 3 NONTERMINAL, typ_act = SHIFTREDUCE,
        x_union = \<lparr>stp = None, rp = Some \<lparr>iRule = 1, precsym = None\<rparr>\<rparr>\<rparr>"]
    C4_action_encoding [where lemp = lemon_stripped and r = "\<lparr>iRule = 1, precsym = None\<rparr>"
      and a = "\<lparr>sp = sym_ex ''PLUS'' 1 TERMINAL, typ_act = SHIFTREDUCE,
        x_union = \<lparr>stp = None, rp = Some \<lparr>iRule = 1, precsym = None\<rparr>\<rparr>\<rparr>"]
    C4_action_encoding [where lemp = lemon_stripped and n = 2
      and a = "\<lparr>sp = sym_ex ''PLUS'' 1 TERMINAL, typ_act = SHIFT,
        x_union = \<lparr>stp = Some 2, rp = None\<rparr>\<rparr>"]
    C4_action_encoding [where lemp = lemon_stripped and r = "\<lparr>iRule = 0, precsym = None\<rparr>"
      and a = "\<lparr>sp = sym_ex ''PLUS'' 1 TERMINAL, typ_act = REDUCE,
        x_union = \<lparr>stp = None, rp = Some \<lparr>iRule = 0, precsym = None\<rparr>\<rparr>\<rparr>"]
    C4_action_encoding [where lemp = lemon_stripped
      and a = "\<lparr>sp = sym_ex ''PLUS'' 1 TERMINAL, typ_act = ERROR,
        x_union = \<lparr>stp = None, rp = None\<rparr>\<rparr>"]
    C4_action_encoding [where lemp = lemon_stripped
      and a = "\<lparr>sp = sym_ex ''expr'' 3 NONTERMINAL, typ_act = ACCEPT,
        x_union = \<lparr>stp = None, rp = None\<rparr>\<rparr>"]
  by (simp add: ReportTable_boundaries_def lemon_stripped_def sym_ex_def)

section \<open>Claims about conflict resolution\<close>

text \<open>
  C3, as stated in the specification, for two reduce actions: the second is marked as a
  conflict if a rule has no precedence symbol or the precedences are equal, and
  otherwise the rule of lower precedence is dropped. Two reduces on \<open>PLUS\<close>, the first by
  a rule marked \<^verbatim>\<open>[FOO]\<close> (a precedence symbol whose precedence is undefined, \<open>-1\<close>) and the
  second by a rule marked \<^verbatim>\<open>[PLUS]\<close> (precedence 2): both rules have a precedence
  symbol, the precedences differ and the first is the lower, yet the first is not
  dropped; the second is marked as a conflict and the count is 1.
\<close>

theorem C3_reduce_reduce_undefined_prec:
  "precsym \<lparr>iRule = 0, precsym = Some FOO_sym\<rparr> \<noteq> None
   \<and> precsym \<lparr>iRule = 1, precsym = Some PLUS_sym\<rparr> \<noteq> None
   \<and> prec FOO_sym < prec PLUS_sym
   \<and> resolve_conflict (reduce_on PLUS_sym 0 (Some FOO_sym)) (reduce_on PLUS_sym 1 (Some PLUS_sym))
       = Inr (reduce_on PLUS_sym 0 (Some FOO_sym),
              (reduce_on PLUS_sym 1 (Some PLUS_sym))\<lparr>typ_act := RRCONFLICT\<rparr>, 1)
   \<and> resolve_conflict (reduce_on PLUS_sym 0 (Some FOO_sym)) (reduce_on PLUS_sym 1 (Some PLUS_sym))
       \<noteq> Inr ((reduce_on PLUS_sym 0 (Some FOO_sym))\<lparr>typ_act := RD_RESOLVED\<rparr>,
              reduce_on PLUS_sym 1 (Some PLUS_sym), 0)"
  by (simp add: resolve_conflict_def Let_def reduce_on_def FOO_sym_def PLUS_sym_def tok_def)

text \<open>
  C3, amended. For a shift \<open>apx\<close> followed by a reduce \<open>apy\<close> on the same lookahead: if the
  rule has no precedence symbol, or the precedence of the shift symbol or of the
  precedence symbol is negative, the reduce is marked \<open>SRCONFLICT\<close> and the count is 1;
  if the shift precedence is greater the reduce becomes \<open>RD_RESOLVED\<close>; if it is smaller
  the shift becomes \<open>SH_RESOLVED\<close>; on equal precedence \<open>RIGHT\<close> drops the reduce, \<open>LEFT\<close>
  drops the shift and \<open>NONE\<close> turns the shift into \<open>ERROR\<close>; in these cases the count is 0.
  For two reduces: if either rule has no precedence symbol, or either precedence is
  negative, or the precedences are equal, the second is marked \<open>RRCONFLICT\<close> and the count
  is 1; otherwise the rule of lower precedence is marked \<open>RD_RESOLVED\<close> and the count is 0.
\<close>

theorem C3_conflict_truth_table:
  assumes same: "sp apx = sp apy"
  shows "(typ_act apx = SHIFT \<and> typ_act apy = REDUCE \<and> rp (x_union apy) = Some ry \<longrightarrow>
      (precsym ry = None \<or> prec (sp apx) < 0 \<or> (\<exists>sy. precsym ry = Some sy \<and> prec sy < 0) \<longrightarrow>
         resolve_conflict apx apy = Inr (apx, apy\<lparr>typ_act := SRCONFLICT\<rparr>, 1))
    \<and> (\<forall>sy. precsym ry = Some sy \<and> 0 \<le> prec sy \<and> 0 \<le> prec (sp apx) \<longrightarrow>
         (prec (sp apx) > prec sy \<longrightarrow>
            resolve_conflict apx apy = Inr (apx, apy\<lparr>typ_act := RD_RESOLVED\<rparr>, 0))
       \<and> (prec (sp apx) < prec sy \<longrightarrow>
            resolve_conflict apx apy = Inr (apx\<lparr>typ_act := SH_RESOLVED\<rparr>, apy, 0))
       \<and> (prec (sp apx) = prec sy \<and> assoc (sp apx) = RIGHT \<longrightarrow>
            resolve_conflict apx apy = Inr (apx, apy\<lparr>typ_act := RD_RESOLVED\<rparr>, 0))
       \<and> (prec (sp apx) = prec sy \<and> assoc (sp apx) = LEFT \<longrightarrow>
            resolve_conflict apx apy = Inr (apx\<lparr>typ_act := SH_RESOLVED\<rparr>, apy, 0))
       \<and> (prec (sp apx) = prec sy \<and> assoc (sp apx) = NONE \<longrightarrow>
            resolve_conflict apx apy = Inr (apx\<lparr>typ_act := ERROR\<rparr>, apy, 0))))
   \<and> (typ_act apx = REDUCE \<and> typ_act apy = REDUCE
        \<and> rp (x_union apx) = Some rx \<and> rp (x_union apy) = Some ry \<longrightarrow>
      (precsym rx = None \<or> precsym ry = None
        \<or> (\<exists>sx sy. precsym rx = Some sx \<and> precsym ry = Some sy
              \<and> (prec sx < 0 \<or> prec sy < 0 \<or> prec sx = prec sy)) \<longrightarrow>
         resolve_conflict apx apy = Inr (apx, apy\<lparr>typ_act := RRCONFLICT\<rparr>, 1))
    \<and> (\<forall>sx sy. precsym rx = Some sx \<and> precsym ry = Some sy \<and> 0 \<le> prec sx \<and> 0 \<le> prec sy \<longrightarrow>
         (prec sx > prec sy \<longrightarrow>
            resolve_conflict apx apy = Inr (apx, apy\<lparr>typ_act := RD_RESOLVED\<rparr>, 0))
       \<and> (prec sx < prec sy \<longrightarrow>
            resolve_conflict apx apy = Inr (apx\<lparr>typ_act := RD_RESOLVED\<rparr>, apy, 0))))"
  using same
  by (auto simp: resolve_conflict_def Let_def split: option.splits)

theorem C3_conflict_truth_table_witness:
  "resolve_conflict (shift_on PLUS_sym) (reduce_on PLUS_sym 0 None)
      = Inr (shift_on PLUS_sym, (reduce_on PLUS_sym 0 None)\<lparr>typ_act := SRCONFLICT\<rparr>, 1)
   \<and> resolve_conflict (shift_on TIMES_sym) (reduce_on TIMES_sym 0 (Some PLUS_sym))
      = Inr (shift_on TIMES_sym, (reduce_on TIMES_sym 0 (Some PLUS_sym))\<lparr>typ_act := RD_RESOLVED\<rparr>, 0)
   \<and> resolve_conflict (shift_on PLUS_sym) (reduce_on PLUS_sym 0 (Some TIMES_sym))
      = Inr ((shift_on PLUS_sym)\<lparr>typ_act := SH_RESOLVED\<rparr>, reduce_on PLUS_sym 0 (Some TIMES_sym), 0)
   \<and> resolve_conflict (shift_on TIMES_sym) (reduce_on TIMES_sym 0 (Some TIMES_sym))
      = Inr (shift_on TIMES_sym, (reduce_on TIMES_sym 0 (Some TIMES_sym))\<lparr>typ_act := RD_RESOLVED\<rparr>, 0)
   \<and> resolve_conflict (shift_on PLUS_sym) (reduce_on PLUS_sym 0 (Some PLUS_sym))
      = Inr ((shift_on PLUS_sym)\<lparr>typ_act := SH_RESOLVED\<rparr>, reduce_on PLUS_sym 0 (Some PLUS_sym), 0)
   \<and> resolve_conflict (shift_on EQ_sym) (reduce_on EQ_sym 0 (Some EQ_sym))
      = Inr ((shift_on EQ_sym)\<lparr>typ_act := ERROR\<rparr>, reduce_on EQ_sym 0 (Some EQ_sym), 0)
   \<and> resolve_conflict (reduce_on EQ_sym 0 (Some PLUS_sym)) (reduce_on EQ_sym 1 (Some PLUS_sym))
      = Inr (reduce_on EQ_sym 0 (Some PLUS_sym), (reduce_on EQ_sym 1 (Some PLUS_sym))\<lparr>typ_act := RRCONFLICT\<rparr>, 1)
   \<and> resolve_conflict (reduce_on EQ_sym 0 (Some TIMES_sym)) (reduce_on EQ_sym 1 (Some PLUS_sym))
      = Inr (reduce_on EQ_sym 0 (Some TIMES_sym), (reduce_on EQ_sym 1 (Some PLUS_sym))\<lparr>typ_act := RD_RESOLVED\<rparr>, 0)
   \<and> resolve_conflict (reduce_on EQ_sym 0 (Some PLUS_sym)) (reduce_on EQ_sym 1 (Some TIMES_sym))
      = Inr ((reduce_on EQ_sym 0 (Some PLUS_sym))\<lparr>typ_act := RD_RESOLVED\<rparr>, reduce_on EQ_sym 1 (Some TIMES_sym), 0)"
  using
    C3_conflict_truth_table [where apx = "shift_on PLUS_sym" and apy = "reduce_on PLUS_sym 0 None"
      and ry = "\<lparr>iRule = 0, precsym = None\<rparr>"]
    C3_conflict_truth_table [where apx = "shift_on TIMES_sym" and apy = "reduce_on TIMES_sym 0 (Some PLUS_sym)"
      and ry = "\<lparr>iRule = 0, precsym = Some PLUS_sym\<rparr>"]
    C3_conflict_truth_table [where apx = "shift_on PLUS_sym" and apy = "reduce_on PLUS_sym 0 (Some TIMES_sym)"
      and ry = "\<lparr>iRule = 0, precsym = Some TIMES_sym\<rparr>"]
    C3_conflict_truth_table [where apx = "shift_on TIMES_sym" and apy = "reduce_on TIMES_sym 0 (Some TIMES_sym)"
      and ry = "\<lparr>iRule = 0, precsym = Some TIMES_sym\<rparr>"]
    C3_conflict_truth_table [where apx = "shift_on PLUS_sym" and apy = "reduce_on PLUS_sym 0 (Some PLUS_sym)"
      and ry = "\<lparr>iRule = 0, precsym = Some PLUS_sym\<rparr>"]
    C3_conflict_truth_table [where apx = "shift_on EQ_sym" and apy = "reduce_on EQ_sym 0 (Some EQ_sym)"
      and ry = "\<lparr>iRule = 0, precsym = Some EQ_sym\<rparr>"]
    C3_conflict_truth_table [where apx = "reduce_on EQ_sym 0 (Some PLUS_sym)"
      and apy = "reduce_on EQ_sym 1 (Some PLUS_sym)"
      and rx = "\<lparr>iRule = 0, precsym = Some PLUS_sym\<rparr>" and ry = "\<lparr>iRule = 1, precsym = Some PLUS_sym\<rparr>"]
    C3_conflict_truth_table [where apx = "reduce_on EQ_sym 0 (Some TIMES_sym)"
      and apy = "reduce_on EQ_sym 1 (Some PLUS_sym)"
      and rx = "\<lparr>iRule = 0, precsym = Some TIMES_sym\<rparr>" and ry = "\<lparr>iRule = 1, precsym = Some PLUS_sym\<rparr>"]
    C3_conflict_truth_table [where apx = "reduce_on EQ_sym 0 (Some PLUS_sym)"
      and apy = "reduce_on EQ_sym 1 (Some TIMES_sym)"
      and rx = "\<lparr>iRule = 0, precsym = Some PLUS_sym\<rparr>" and ry = "\<lparr>iRule = 1, precsym = Some TIMES_sym\<rparr>"]
  by (simp add: shift_on_def reduce_on_def PLUS_sym_def TIMES_sym_def EQ_sym_def tok_def)

section \<open>Claims about the action table\<close>

text \<open>
  C1: every entry \<open>(t, a)\<close> that \<^verbatim>\<open>ReportTable\<close> hands to the table for a row is found at
  \<open>aAction[o + t]\<close>, where \<open>o\<close> is the offset of the row. The comment on \<^verbatim>\<open>acttab_action\<close>
  says that it is called once for each lookahead of a state. A state in which
  \<^verbatim>\<open>resolve_conflict\<close> has turned the shift on a \<^verbatim>\<open>%nonassoc\<close> token \<open>EQ\<close> into an error keeps
  the reduce on \<open>EQ\<close>: both have an action code (8 and 11), \<^verbatim>\<open>ReportTable\<close> calls
  \<^verbatim>\<open>acttab_action\<close> for both with lookahead 3, and the slot holds the second; the entry
  \<open>(3, 8)\<close> of the row is not in the table.
\<close>

theorem C1_two_actions_one_lookahead:
  "resolve_conflict (shift_on EQ_sym) (reduce_on EQ_sym 0 (Some EQ_sym))
      = Inr (nonassoc_actions ! 0, nonassoc_actions ! 1, 0)
   \<and> row_entries lemon_after True nonassoc_actions = [(3, 8), (3, 11)]
   \<and> packed (ReportTable_pack lemon_after (acttab_alloc 6 5)
        (ax_of_state 3 ((state_of nonassoc_actions)\<lparr>nTknAct := 2\<rparr>)))
      = Inr ([(- 1, - 1), (- 1, - 1), (- 1, - 1), (3, 11), (- 1, - 1), (- 1, - 1),
              (- 1, - 1), (- 1, - 1), (- 1, - 1)], [0])"
  by code_simp

text \<open>
  C2: for every terminal row (inserted with \<open>makeItSafe\<close> true, from a well-formed table
  with a well-formed pending row), \<^verbatim>\<open>acttab_insert\<close> returns an offset that is not
  negative; afterwards \<open>nAction\<close> is at least \<open>i + nterminal + 1\<close>, where \<open>i\<close> is the offset
  plus the minimum lookahead; so for every terminal index \<open>t\<close> below \<open>nterminal\<close> the index
  \<open>offset + t\<close> is at least 0 and below the fill \<open>nAction\<close>, and, when \<open>nterminal\<close> is at most
  \<open>nsymbol\<close>, below the length of the slice.
\<close>

theorem C2_terminal_row_in_bounds:
  assumes "acttab_ok p" "row_ok p"
  shows "\<exists>p' ofs. acttab_insert p True = Inr (p', ofs) \<and> 0 \<le> ofs
     \<and> ofs + mnLookahead p + nterminal p + 1 \<le> nAction p'
     \<and> (\<forall>t. 0 \<le> t \<and> t < nterminal p \<longrightarrow> 0 \<le> ofs + t \<and> ofs + t < nAction p')
     \<and> (nterminal p \<le> nsymbol p \<longrightarrow>
          (\<forall>t. 0 \<le> t \<and> t < nterminal p \<longrightarrow> ofs + t < int (length (aAction p'))))"
proof -
  obtain p' ofs where r: "acttab_insert p True = Inr (p', ofs)" "0 \<le> ofs"
     "ofs + mnLookahead p + nterminal p + 1 \<le> nAction p'"
     "\<forall>t. t < nsymbol p \<longrightarrow> ofs + t < int (length (aAction p'))"
    using acttab_insert_pending[OF assms, of True] by auto
  have mn: "0 \<le> mnLookahead p" using assms(2) by (simp add: row_ok_def)
  have "0 \<le> ofs + t \<and> ofs + t < nAction p'" if "0 \<le> t \<and> t < nterminal p" for t
    using that r(2,3) mn by linarith
  moreover have "ofs + t < int (length (aAction p'))"
    if "nterminal p \<le> nsymbol p" "0 \<le> t \<and> t < nterminal p" for t
    using that r(4) by auto
  ultimately show ?thesis using r(1,2,3) by blast
qed

theorem C2_terminal_row_in_bounds_witness:
  "acttab_ok (pending_row 6 5 [(1, 10), (2, 11)]) \<and> row_ok (pending_row 6 5 [(1, 10), (2, 11)])
   \<and> (\<exists>p' ofs. acttab_insert (pending_row 6 5 [(1, 10), (2, 11)]) True = Inr (p', ofs)
        \<and> 0 \<le> ofs \<and> ofs + 1 + 5 + 1 \<le> nAction p'
        \<and> (\<forall>t. 0 \<le> t \<and> t < 5 \<longrightarrow> 0 \<le> ofs + t \<and> ofs + t < nAction p'
               \<and> ofs + t < int (length (aAction p'))))"
proof -
  let ?p = "pending_row 6 5 [(1, 10), (2, 11)]"
  have h: "acttab_ok ?p" "row_ok ?p" "nsymbol ?p = 6" "nterminal ?p = 5"
    using pending_row_ok[of 6 "[(1, 10), (2, 11)]" 5] by simp_all
  have mn: "mnLookahead ?p = 1" by code_simp
  show ?thesis
    using C2_terminal_row_in_bounds[OF h(1,2)] h mn by fastforce
qed

text \<open>
  C10: for every nonterminal row (inserted with \<open>makeItSafe\<close> false, from a well-formed
  table with a well-formed pending row whose minimum lookahead is \<open>mn\<close>), \<^verbatim>\<open>acttab_insert\<close>
  returns an offset \<open>i - mn\<close> with \<open>i\<close> at least 0, so the offset is at least \<open>- mn\<close>; and it
  can be negative: the row with the single lookahead 5 put into an empty table gets the
  offset \<open>- 5\<close>.
\<close>

theorem C10_nonterminal_offset_bound:
  "(acttab_ok p \<and> row_ok p \<longrightarrow>
      (\<exists>p' ofs i. acttab_insert p False = Inr (p', ofs) \<and> 0 \<le> i \<and> ofs = i - mnLookahead p
          \<and> - mnLookahead p \<le> ofs))
   \<and> acttab_ok (pending_row 6 5 [(5, 7)]) \<and> row_ok (pending_row 6 5 [(5, 7)])
   \<and> map_sum id snd (acttab_insert (pending_row 6 5 [(5, 7)]) False) = Inr (- 5)"
proof -
  have a: "\<exists>p' ofs i. acttab_insert p False = Inr (p', ofs) \<and> 0 \<le> i \<and> ofs = i - mnLookahead p
          \<and> - mnLookahead p \<le> ofs" if h: "acttab_ok p" "row_ok p"
  proof -
    obtain p' ofs where r: "acttab_insert p False = Inr (p', ofs)" "- mnLookahead p \<le> ofs"
      using acttab_insert_pending[OF h, of False] by auto
    show ?thesis
      using r by (intro exI[of _ p'] exI[of _ ofs] exI[of _ "ofs + mnLookahead p"]) simp
  qed
  have b: "acttab_ok (pending_row 6 5 [(5, 7)]) \<and> row_ok (pending_row 6 5 [(5, 7)])"
    using pending_row_ok[of 6 "[(5, 7)]" 5] by simp
  have c: "map_sum id snd (acttab_insert (pending_row 6 5 [(5, 7)]) False) = Inr (- 5)"
    by code_simp
  show ?thesis using a b c by blast
qed

theorem C10_nonterminal_offset_bound_witness:
  "acttab_ok (pending_row 7 5 [(5, 7), (6, 2)]) \<and> row_ok (pending_row 7 5 [(5, 7), (6, 2)])
   \<and> (\<exists>p' ofs. acttab_insert (pending_row 7 5 [(5, 7), (6, 2)]) False = Inr (p', ofs) \<and> - 5 \<le> ofs)"
proof -
  let ?p = "pending_row 7 5 [(5, 7), (6, 2)]"
  have h: "acttab_ok ?p" "row_ok ?p"
    using pending_row_ok[of 7 "[(5, 7), (6, 2)]" 5] by simp_all
  have mn: "mnLookahead ?p = 5" by code_simp
  show ?thesis
    using C10_nonterminal_offset_bound[of ?p] h mn by fastforce
qed

text \<open>
  C9: \<^verbatim>\<open>acttab_insert\<close> panics whenever the pending row is empty (\<open>nLookahead \<le> 0\<close>). In
  \<^verbatim>\<open>ReportTable\<close> the panic is unreachable: an entry of \<open>ax\<close> holds the count that
  \<^verbatim>\<open>ResortStates\<close> computed for its state (whose actions may since point to renumbered
  states); when that count is positive the loop that fills the row calls
  \<^verbatim>\<open>acttab_action\<close> at least once, so the row that reaches \<^verbatim>\<open>acttab_insert\<close> is not empty;
  and the whole packing loop returns.
\<close>

theorem C9_empty_row_panic_unreachable:
  "(nLookahead p \<le> 0 \<longrightarrow> acttab_insert p safe = Inl WantLookahead)
   \<and> (lemon_ok l0 \<and> lemon_ok l \<and> lemon.nsymbol l = lemon.nsymbol l0
        \<and> lemon.nterminal l = lemon.nterminal l0 \<and> ax_counted l0 a \<and> 0 < nAction_ax a
        \<and> acttab_ok q \<and> nLookahead q = 0 \<and> nsymbol q = lemon.nsymbol l
      \<longrightarrow> row_entries l (isTkn a) (ap (stp_ax a)) \<noteq> []
          \<and> (\<exists>q1. (if isTkn a then token_row l q (ap (stp_ax a))
                    else nonterminal_row l q (ap (stp_ax a))) = Inr q1
                \<and> 0 < nLookahead q1 \<and> acttab_insert q1 (isTkn a) \<noteq> Inl WantLookahead))
   \<and> (lemon_ok l0 \<and> lemon_ok l \<and> lemon.nsymbol l = lemon.nsymbol l0
        \<and> lemon.nterminal l = lemon.nterminal l0 \<and> (\<forall>a \<in> set ax. ax_counted l0 a)
      \<longrightarrow> (\<exists>p' offs.
            ReportTable_pack l (acttab_alloc (lemon.nsymbol l) (lemon.nterminal l)) ax
              = Inr (p', offs)))"
proof (intro conjI impI)
  assume "nLookahead p \<le> 0"
  then show "acttab_insert p safe = Inl WantLookahead" by (simp add: acttab_insert_def)
next
  assume h: "lemon_ok l0 \<and> lemon_ok l \<and> lemon.nsymbol l = lemon.nsymbol l0
        \<and> lemon.nterminal l = lemon.nterminal l0 \<and> ax_counted l0 a \<and> 0 < nAction_ax a
        \<and> acttab_ok q \<and> nLookahead q = 0 \<and> nsymbol q = lemon.nsymbol l"
  then have ok: "ax_ok l a" using ax_counted_ok[of l0 l a] by simp
  then show "row_entries l (isTkn a) (ap (stp_ax a)) \<noteq> []" using h by (simp add: ax_ok_def)
next
  assume h: "lemon_ok l0 \<and> lemon_ok l \<and> lemon.nsymbol l = lemon.nsymbol l0
        \<and> lemon.nterminal l = lemon.nterminal l0 \<and> ax_counted l0 a \<and> 0 < nAction_ax a
        \<and> acttab_ok q \<and> nLookahead q = 0 \<and> nsymbol q = lemon.nsymbol l"
  then have ok: "ax_ok l a" using ax_counted_ok[of l0 l a] by simp
  have l: "lemon_ok l" and wf: "list_all (action_ok l) (ap (stp_ax a))"
    and ne: "row_entries l (isTkn a) (ap (stp_ax a)) \<noteq> []"
    using h ok by (simp_all add: ax_ok_def)
  have rows: "(if isTkn a then token_row l q (ap (stp_ax a)) else nonterminal_row l q (ap (stp_ax a)))
      = add_actions q (row_entries l (isTkn a) (ap (stp_ax a)))"
    using token_row_entries[OF l wf] nonterminal_row_entries[OF l wf] by simp
  have rng: "\<forall>e \<in> set (row_entries l (isTkn a) (ap (stp_ax a))). 0 \<le> fst e \<and> fst e < nsymbol q"
    using row_entries_range[OF l wf] h by auto
  obtain q1 where q1: "add_actions q (row_entries l (isTkn a) (ap (stp_ax a))) = Inr q1" "row_ok q1"
    "acttab_ok q1"
    using add_actions_result[OF _ _ rng] h ne by auto
  have "0 < nLookahead q1" using q1(2) by (simp add: row_ok_def)
  moreover have "acttab_insert q1 (isTkn a) \<noteq> Inl WantLookahead"
    using acttab_insert_pending[OF q1(3,2), of "isTkn a"] by auto
  ultimately show "\<exists>q1. (if isTkn a then token_row l q (ap (stp_ax a))
                    else nonterminal_row l q (ap (stp_ax a))) = Inr q1
                \<and> 0 < nLookahead q1 \<and> acttab_insert q1 (isTkn a) \<noteq> Inl WantLookahead"
    using rows q1(1) by auto
next
  assume h: "lemon_ok l0 \<and> lemon_ok l \<and> lemon.nsymbol l = lemon.nsymbol l0
        \<and> lemon.nterminal l = lemon.nterminal l0 \<and> (\<forall>a \<in> set ax. ax_counted l0 a)"
  then have ok: "\<forall>a \<in> set ax. ax_ok l a" using ax_counted_ok[of l0 l] by blast
  have n: "0 \<le> lemon.nsymbol l" using h by (simp add: lemon_ok_def)
  show "\<exists>p' offs.
            ReportTable_pack l (acttab_alloc (lemon.nsymbol l) (lemon.nterminal l)) ax
              = Inr (p', offs)"
    using ReportTable_pack_result[OF _ _ _ _ ok,
        of "acttab_alloc (lemon.nsymbol l) (lemon.nterminal l)"] acttab_alloc_ok[OF n] h
    by blast
qed

theorem C9_empty_row_panic_unreachable_witness:
  "acttab_insert (acttab_alloc 6 5) True = Inl WantLookahead
   \<and> ResortStates_state lemon_before (state_of plain_actions) = Inr counted_state
   \<and> nTknAct counted_state = 2 \<and> nNtAct counted_state = 1
   \<and> list_all (ax_counted lemon_before)
        (ax_of_state 3 (counted_state\<lparr>ap := map (renumber swap_1_5) (ap counted_state)\<rparr>))
   \<and> (\<exists>p' offs.
        ReportTable_pack lemon_after (acttab_alloc 6 5)
          (ax_of_state 3 (counted_state\<lparr>ap := map (renumber swap_1_5) (ap counted_state)\<rparr>))
          = Inr (p', offs))
   \<and> row_entries lemon_after True (map (renumber swap_1_5) plain_actions) \<noteq> []"
proof -
  let ?st = "counted_state\<lparr>ap := map (renumber swap_1_5) (ap counted_state)\<rparr>"
  let ?ax = "ax_of_state 3 ?st"
  have cnt: "ResortStates_state lemon_before (state_of plain_actions) = Inr counted_state"
    by code_simp
  have wf: "list_all (action_ok lemon_before) (ap (state_of plain_actions))"
    by (simp add: action_ok_def plain_actions_def shift_on_def state_of_def
        reduce_on_def sym_ex_def PLUS_sym_def TIMES_sym_def tok_def lemon_before_def)
  have f: "\<forall>n. 0 \<le> n \<longrightarrow> 0 \<le> swap_1_5 n" by (simp add: swap_1_5_def)
  have c: "ax_counted lemon_before a" if "a \<in> set ?ax" for a
    unfolding ax_counted_def
    using wf f cnt that
    by (intro exI[of _ "state_of plain_actions"] exI[of _ counted_state] exI[of _ swap_1_5]
        exI[of _ 3]) simp
  have ns: "lemon.nsymbol lemon_after = 6" "lemon.nterminal lemon_after = 5"
    "lemon.nsymbol lemon_before = 6" "lemon.nterminal lemon_before = 5"
    by (simp_all add: lemon_after_def lemon_before_def ReportTable_boundaries_def)
  have a0: "acttab_ok (acttab_alloc 6 5) \<and> nLookahead (acttab_alloc 6 5) = 0
     \<and> nsymbol (acttab_alloc 6 5) = 6"
    using acttab_alloc_ok[of 6 5] by simp
  have tk: "\<lparr>stp_ax = ?st, isTkn = True, nAction_ax = 2, iOrder = 6\<rparr> \<in> set ?ax"
    by (simp add: ax_of_state_def counted_state_def)
  have apst: "ap ?st = map (renumber swap_1_5) plain_actions"
    by (simp add: counted_state_def state_of_def)
  note inst = C9_empty_row_panic_unreachable[of "acttab_alloc 6 5" True lemon_before lemon_after
      "\<lparr>stp_ax = ?st, isTkn = True, nAction_ax = 2, iOrder = 6\<rparr>" "acttab_alloc 6 5" ?ax]
  have p1: "acttab_insert (acttab_alloc 6 5) True = Inl WantLookahead"
    using inst by (simp add: acttab_alloc_def)
  have p2: "\<exists>p' offs. ReportTable_pack lemon_after (acttab_alloc 6 5) ?ax = Inr (p', offs)"
    using inst lemon_before_ok lemon_after_ok ns c by auto
  have p3: "row_entries lemon_after True (map (renumber swap_1_5) plain_actions) \<noteq> []"
    using inst lemon_before_ok lemon_after_ok ns c[OF tk] a0 apst by auto
  have n: "nTknAct counted_state = 2 \<and> nNtAct counted_state = 1" by (simp add: counted_state_def)
  have c': "list_all (ax_counted lemon_before) ?ax" using c by (simp add: list_all_iff)
  show ?thesis using p1 cnt n c' p2 p3 by blast
qed


section \<open>Claims about the driver\<close>

text \<open>
  C5: the exit code is 0 when the run succeeds and 1 whenever errors were accumulated.
  The comment on the last statement of \<^verbatim>\<open>main\<close> says the same: return 0 on success, 1 on
  failure. After \<^verbatim>\<open>Parse\<close>, \<^verbatim>\<open>main\<close> calls \<^verbatim>\<open>os.Exit(lem.errorcnt)\<close> when errors were counted:
  with two parse errors the exit status is 2, and with 256 parse errors it is 0.
\<close>

theorem C5_parse_errors_exit_code:
  "stages_ex 2 0 Parse (lemon_start flags_ex) = Inr (lemon_start flags_ex\<lparr>nrule := 1, errorcnt := 2\<rparr>)
   \<and> main (stages_ex 2 0) flags_ex = \<lparr>trace = [Parse], code = 2, final = None\<rparr>
   \<and> code (main (stages_ex 2 0) flags_ex) \<noteq> 1
   \<and> stages_ex 256 0 Parse (lemon_start flags_ex)
        = Inr (lemon_start flags_ex\<lparr>nrule := 1, errorcnt := 256\<rparr>)
   \<and> main (stages_ex 256 0) flags_ex = \<lparr>trace = [Parse], code = 0, final = None\<rparr>"
  by (simp add: main_def stages_ex_def flags_ex_def lemon_start_def exit_status_def)

text \<open>
  C6, as stated in the specification: after a stage that finishes with a non-zero error
  count, parsing for example, all later stages still run. \<^verbatim>\<open>Parse\<close> that reports one
  error is the only stage called.
\<close>

theorem C6_parse_errors_stop_the_run:
  "stages_ex 1 0 Parse (lemon_start flags_ex) = Inr (lemon_start flags_ex\<lparr>nrule := 1, errorcnt := 1\<rparr>)
   \<and> trace (main (stages_ex 1 0) flags_ex) = [Parse]
   \<and> FindRulePrecedences \<notin> set (trace (main (stages_ex 1 0) flags_ex))
   \<and> ReportTable \<notin> set (trace (main (stages_ex 1 0) flags_ex))"
  by (simp add: main_def stages_ex_def flags_ex_def lemon_start_def)

text \<open>
  C6, amended: a positive error count after \<^verbatim>\<open>Parse\<close> ends the run before any other
  stage. When \<^verbatim>\<open>Parse\<close> returns without error (with at least one rule, without \<^verbatim>\<open>-E\<close> and
  \<^verbatim>\<open>-g\<close>) and no stage ends the process itself, then whatever error counts the stages
  leave, all of them are called, in order: precedence resolution, first sets, states,
  links, follow sets, actions, compression (unless \<^verbatim>\<open>-c\<close>), resorting (unless \<^verbatim>\<open>-r\<close>), the
  report (unless \<^verbatim>\<open>-q\<close>) and the tables.
\<close>

theorem C6_stages_after_parse:
  "(\<not> version fl \<and> nargs fl = 1 \<and> st Parse (lemon_start fl) = Inr lem1 \<and> errorcnt lem1 > 0 \<longrightarrow>
       trace (main st fl) = [Parse])
   \<and> (\<not> version fl \<and> nargs fl = 1 \<and> st Parse (lemon_start fl) = Inr lem1
        \<and> \<not> printPreprocessed lem1 \<and> errorcnt lem1 \<le> 0 \<and> nrule lem1 \<noteq> 0 \<and> \<not> rpflag fl
        \<and> (\<forall>s lem. \<exists>lem'. st s lem = Inr lem') \<longrightarrow>
       trace (main st fl) =
         [Parse, IndexSymbols, FindRulePrecedences, FindFirstSets, FindStates, FindLinks,
          FindFollowSets, FindActions]
         @ (if compress fl then [] else [CompressTables])
         @ (if noResort fl then [] else [ResortStates])
         @ (if quiet fl then [] else [ReportOutput])
         @ [ReportTable])"
proof (intro conjI impI)
  assume "\<not> version fl \<and> nargs fl = 1 \<and> st Parse (lemon_start fl) = Inr lem1 \<and> errorcnt lem1 > 0"
  then show "trace (main st fl) = [Parse]" by (simp add: main_def)
next
  assume h: "\<not> version fl \<and> nargs fl = 1 \<and> st Parse (lemon_start fl) = Inr lem1
        \<and> \<not> printPreprocessed lem1 \<and> errorcnt lem1 \<le> 0 \<and> nrule lem1 \<noteq> 0 \<and> \<not> rpflag fl
        \<and> (\<forall>s lem. \<exists>lem'. st s lem = Inr lem')"
  then obtain lem2 where
    "run_stages st (IndexSymbols # analysis fl) lem1 = (IndexSymbols # analysis fl, Inr lem2)"
    using run_stages_all[of st "IndexSymbols # analysis fl" lem1] by blast
  then have "trace (main st fl) = Parse # IndexSymbols # analysis fl"
    using h by (simp add: main_def)
  then show "trace (main st fl) =
         [Parse, IndexSymbols, FindRulePrecedences, FindFirstSets, FindStates, FindLinks,
          FindFollowSets, FindActions]
         @ (if compress fl then [] else [CompressTables])
         @ (if noResort fl then [] else [ResortStates])
         @ (if quiet fl then [] else [ReportOutput])
         @ [ReportTable]"
    by (simp add: analysis_def)
qed

theorem C6_stages_after_parse_witness:
  "trace (main (stages_ex 1 0) flags_ex) = [Parse]
   \<and> trace (main (stages_ex 0 3) flags_ex) =
       [Parse, IndexSymbols, FindRulePrecedences, FindFirstSets, FindStates, FindLinks,
        FindFollowSets, FindActions, CompressTables, ResortStates, ReportOutput, ReportTable]
   \<and> map_option errorcnt (final (main (stages_ex 0 3) flags_ex)) = Some 3"
proof -
  have p1: "stages_ex 1 0 Parse (lemon_start flags_ex)
      = Inr (lemon_start flags_ex\<lparr>nrule := 1, errorcnt := 1\<rparr>)"
    by (simp add: stages_ex_def)
  have p0: "stages_ex 0 3 Parse (lemon_start flags_ex)
      = Inr (lemon_start flags_ex\<lparr>nrule := 1, errorcnt := 0\<rparr>)"
    by (simp add: stages_ex_def)
  have all: "\<forall>s lem. \<exists>lem'. stages_ex 0 3 s lem = Inr lem'" by (simp add: stages_ex_def)
  have f3: "map_option errorcnt (final (main (stages_ex 0 3) flags_ex)) = Some 3"
    by (simp add: main_def stages_ex_def flags_ex_def lemon_start_def analysis_def)
  show ?thesis
    using C6_stages_after_parse[of flags_ex "stages_ex 1 0" "lemon_start flags_ex\<lparr>nrule := 1, errorcnt := 1\<rparr>"]
      C6_stages_after_parse[of flags_ex "stages_ex 0 3" "lemon_start flags_ex\<lparr>nrule := 1, errorcnt := 0\<rparr>"]
      p1 p0 all f3
    by (simp add: flags_ex_def lemon_start_def)
qed


section \<open>Claims about the numbering of the symbols\<close>

text \<open>
  C7: after the sort and the assignment of the indices, the symbols below \<^verbatim>\<open>nterminal\<close> are
  exactly the terminals and the symbols from \<^verbatim>\<open>nterminal\<close> to \<^verbatim>\<open>nsymbol - 1\<close> are the
  nonterminals. The grammar \<^verbatim>\<open>a ::= X.\<close> where \<^verbatim>\<open>X\<close> is the one letter \<^verbatim>\<open>U+00C9\<close>, an upper
  case E with an acute accent, is read without error. \<^verbatim>\<open>Symbol_new\<close> makes the symbol a
  terminal, since its first rune is upper case; \<^verbatim>\<open>Symbolcmpp\<close> compares the first byte of
  its name, \<^verbatim>\<open>0xC3\<close>, with \<^verbatim>\<open>'Z'\<close> and sorts it with the nonterminals. The terminal gets
  index 2, and \<^verbatim>\<open>nterminal\<close> is 1.
\<close>

theorem C7_uppercase_outside_ascii:
  "Parse_symbols IsLetter_Latin1 IsUpper_Latin1 grammar_latin
     = ([\<lparr>name = ''$'', index = 0, typ_sym = NONTERMINAL, prec = - 1, assoc = UNK, subsym = []\<rparr>,
         \<lparr>name = ''a'', index = 0, typ_sym = NONTERMINAL, prec = - 1, assoc = UNK, subsym = []\<rparr>,
         \<lparr>name = E_acute, index = 0, typ_sym = TERMINAL, prec = - 1, assoc = UNK, subsym = []\<rparr>], 0)
   \<and> shape (index_symbols IsUpper_Latin1 (fst (Parse_symbols IsLetter_Latin1 IsUpper_Latin1 grammar_latin)))
     = Inr ([(''$'', 0, NONTERMINAL, []), (''a'', 1, NONTERMINAL, []), (E_acute, 2, TERMINAL, []),
             (''{default}'', 3, NONTERMINAL, [])], 3, 1)"
  by code_simp

end
